theory Spec2Isabelle
  imports Main "HOL-Library.Char_ord" "HOL-Library.List_Lexorder" "HOL-Library.Sublist"
begin

section \<open>Strings of the documentation generator\<close>

text \<open>
  The generator \<^verbatim>\<open>tools/update-docs.ts\<close> rewrites one markdown file per lint rule.
  A JavaScript string is modelled as a \<^typ>\<open>string\<close>: the list of its characters, each a
  code point in the range U+0000 to U+00FF. In that range the line terminators are
  line feed and carriage return, and the white space of \<^verbatim>\<open>\s\<close> and \<^verbatim>\<open>trim()\<close> is
  tab, line feed, vertical tab, form feed, carriage return, space and no-break space.
\<close>

definition NL :: char where
  "NL = CHR 0x0A"

definition CR :: char where
  "CR = CHR 0x0D"

definition is_line_terminator :: "char \<Rightarrow> bool" where
  "is_line_terminator c \<longleftrightarrow> c = NL \<or> c = CR"

definition is_space :: "char \<Rightarrow> bool" where
  "is_space c \<longleftrightarrow>
     c = CHR 0x09 \<or> c = CHR 0x0A \<or> c = CHR 0x0B \<or> c = CHR 0x0C \<or> c = CHR 0x0D
     \<or> c = CHR 0x20 \<or> c = CHR 0xA0"

text \<open>\<^verbatim>\<open>Array.prototype.join\<close>: the elements separated by \<open>sep\<close>.\<close>

fun join :: "string \<Rightarrow> string list \<Rightarrow> string" where
  "join sep [] = []"
| "join sep [x] = x"
| "join sep (x # y # ys) = x @ sep @ join sep (y # ys)"

text \<open>\<^verbatim>\<open>String.prototype.trim\<close>: white space removed at both ends.\<close>

definition trim :: "string \<Rightarrow> string" where
  "trim s = rev (dropWhile is_space (rev (dropWhile is_space s)))"

section \<open>formatItems and yamlValue\<close>

text \<open>
  \<^verbatim>\<open>formatItems\<close>: up to two items are joined with \<open>and\<close>; three or more are
  \<open>all of\<close>, the items but the last separated by commas, \<open>and\<close>, the last item.
  \<^verbatim>\<open>items.slice(0, -1)\<close> is \<^const>\<open>butlast\<close>; the branch is taken only for a list of
  three or more items, where \<^verbatim>\<open>items[items.length - 1]\<close> is \<^const>\<open>last\<close>.
\<close>

definition formatItems :: "string list \<Rightarrow> string" where
  "formatItems items =
     (if length items \<le> 2 then join '' and '' items
      else ''all of '' @ join '', '' (butlast items) @ '' and '' @ last items)"

text \<open>
  The values \<^verbatim>\<open>yamlValue\<close> receives are strings and numbers. \<^verbatim>\<open>String.prototype.replace\<close>
  with a global one-character pattern and a constant replacement without \<open>$\<close>
  patterns rewrites each occurrence of the character.
\<close>

datatype jsval = JString string | JNumber nat

definition escape_backslash :: "string \<Rightarrow> string" where
  "escape_backslash s = concat (map (\<lambda>c. if c = CHR 0x5C then [CHR 0x5C, CHR 0x5C] else [c]) s)"

definition escape_quote :: "string \<Rightarrow> string" where
  "escape_quote s = concat (map (\<lambda>c. if c = CHR 0x22 then [CHR 0x5C, CHR 0x22] else [c]) s)"

definition yamlValue :: "jsval \<Rightarrow> jsval" where
  "yamlValue val =
     (case val of
        JString s \<Rightarrow> JString ([CHR 0x22] @ escape_quote (escape_backslash s) @ [CHR 0x22])
      | JNumber n \<Rightarrow> JNumber n)"

text \<open>The decimal digits of a natural number, as a template literal prints it.\<close>

fun digits :: "nat \<Rightarrow> string" where
  "digits n = (if n < 10 then [char_of (48 + n)] else digits (n div 10) @ [char_of (48 + n mod 10)])"

declare digits.simps [simp del]

definition toString :: "jsval \<Rightarrow> string" where
  "toString v = (case v of JString s \<Rightarrow> s | JNumber n \<Rightarrow> digits n)"

section \<open>The rule descriptor\<close>

text \<open>
  The fields of \<^verbatim>\<open>RuleModule\<close> the generator reads. \<open>fixable\<close>, \<open>deprecated\<close> and
  \<open>extensionRule\<close> are the truth values of the tests the code makes on them.
  \<open>categories\<close> and \<open>replacedBy\<close> are \<open>None\<close> when the field is null or undefined and
  \<open>Some\<close> of the array otherwise: an array, also an empty one, is truthy.
\<close>

record rule_docs =
  ruleId :: string
  ruleName :: string
  description :: string
  categories :: "string list option"
  replacedBy :: "string list option"
  extensionRule :: bool

record rule_module =
  fixable :: bool
  deprecated :: bool
  docs :: rule_docs

section \<open>Regular expressions\<close>

text \<open>
  The patterns of the generator, as syntax trees, and the backtracking matcher of
  ECMAScript over them. \<open>Sym p\<close> is one character satisfying \<open>p\<close>, \<open>Star\<close> the greedy
  and \<open>LazyStar\<close> the non-greedy repetition, \<open>Opt\<close> the greedy \<^verbatim>\<open>?\<close>, \<open>Group k\<close> the \<open>k\<close>th capturing group,
  \<open>Bol\<close> and \<open>Eol\<close> the assertions \<^verbatim>\<open>^\<close> and \<^verbatim>\<open>$\<close> without the multiline flag.
\<close>

datatype re =
    Sym "char \<Rightarrow> bool"
  | Seq re re
  | Star re
  | LazyStar re
  | Opt re
  | Group nat re
  | Bol
  | Eol
  | Eps

type_synonym captures = "nat \<rightharpoonup> string"

text \<open>
  \<open>ms r n (s, caps)\<close> lists, in the order backtracking tries them, the ways \<open>r\<close>
  matches a prefix of the rest \<open>s\<close> of an input of length \<open>n\<close>: each as the rest of the
  input after the match, with the captures. A repetition gives up an iteration that
  consumed nothing, as ECMAScript does. The first element is the match found.
\<close>

function ms :: "re \<Rightarrow> nat \<Rightarrow> string \<times> captures \<Rightarrow> (string \<times> captures) list" where
  "ms (Sym p) n (s, caps) = (case s of [] \<Rightarrow> [] | c # cs \<Rightarrow> if p c then [(cs, caps)] else [])"
| "ms (Seq r1 r2) n (s, caps) = concat (map (ms r2 n) (ms r1 n (s, caps)))"
| "ms (Star r) n (s, caps) =
     concat (map (\<lambda>(s', caps'). if length s' < length s then ms (Star r) n (s', caps') else [])
                 (ms r n (s, caps)))
     @ [(s, caps)]"
| "ms (LazyStar r) n (s, caps) =
     (s, caps) #
     concat (map (\<lambda>(s', caps'). if length s' < length s then ms (LazyStar r) n (s', caps') else [])
                 (ms r n (s, caps)))"
| "ms (Opt r) n (s, caps) =
     filter (\<lambda>(s', caps'). length s' < length s) (ms r n (s, caps)) @ [(s, caps)]"
| "ms (Group k r) n (s, caps) =
     map (\<lambda>(s', caps'). (s', caps'(k \<mapsto> take (length s - length s') s))) (ms r n (s, caps))"
| "ms Bol n (s, caps) = (if length s = n then [(s, caps)] else [])"
| "ms Eol n (s, caps) = (if s = [] then [(s, caps)] else [])"
| "ms Eps n (s, caps) = [(s, caps)]"
  by pat_completeness auto
termination
  by (relation "measures [\<lambda>(r, n, s, caps). size r, \<lambda>(r, n, s, caps). length s]") auto

declare ms.simps(3) [simp del] ms.simps(4) [simp del]

definition Plus :: "re \<Rightarrow> re" where
  "Plus r = Seq r (Star r)"

definition Chr :: "char \<Rightarrow> re" where
  "Chr c = Sym (\<lambda>x. x = c)"

definition Lit :: "string \<Rightarrow> re" where
  "Lit w = foldr (\<lambda>c r. Seq (Chr c) r) w Eps"

definition Seqs :: "re list \<Rightarrow> re" where
  "Seqs rs = foldr Seq rs Eps"

text \<open>The character classes: \<^verbatim>\<open>.\<close> (with the \<open>u\<close> flag, no \<open>s\<close> flag), \<^verbatim>\<open>[^\n]\<close>, \<^verbatim>\<open>[\s\S]\<close>, \<^verbatim>\<open>\s\<close>.\<close>

definition Dot :: re where
  "Dot = Sym (\<lambda>c. \<not> is_line_terminator c)"

definition NotNl :: re where
  "NotNl = Sym (\<lambda>c. c \<noteq> NL)"

definition AnyChar :: re where
  "AnyChar = Sym (\<lambda>c. True)"

definition Space :: re where
  "Space = Sym is_space"

text \<open>
  A match attempt at the current position (\<^verbatim>\<open>RegExpBuiltinExec\<close> at one index): the rest
  after the first match in backtracking order, and its captures.
\<close>

definition exec_at :: "re \<Rightarrow> nat \<Rightarrow> string \<Rightarrow> (string \<times> captures) option" where
  "exec_at r n s = (case ms r n (s, Map.empty) of [] \<Rightarrow> None | m # _ \<Rightarrow> Some m)"

text \<open>
  The leftmost match at or after the current position: the text before it (\<open>pre\<close> is
  the input before the current position), the matched text, the text after it, the
  captures. The position after the last character is tried too.
\<close>

fun search :: "re \<Rightarrow> nat \<Rightarrow> string \<Rightarrow> string \<Rightarrow> (string \<times> string \<times> string \<times> captures) option" where
  "search r n pre [] =
     (case exec_at r n [] of
        Some (s', caps) \<Rightarrow> Some (pre, [], s', caps)
      | None \<Rightarrow> None)"
| "search r n pre (c # cs) =
     (case exec_at r n (c # cs) of
        Some (s', caps) \<Rightarrow> Some (pre, take (length (c # cs) - length s') (c # cs), s', caps)
      | None \<Rightarrow> search r n (pre @ [c]) cs)"

definition test :: "re \<Rightarrow> string \<Rightarrow> bool" where
  "test r s \<longleftrightarrow> search r (length s) [] s \<noteq> None"

text \<open>
  \<^verbatim>\<open>GetSubstitution\<close>: the replacement template with its \<open>$\<close> patterns expanded, for a
  pattern with \<open>m\<close> capturing groups and no named group. \<open>$$\<close> is a dollar sign,
  \<open>$&\<close> the matched text, \<open>$`\<close> and \<open>$'\<close> the text before and after the match,
  \<open>$n\<close> and \<open>$nn\<close> a capture when the pattern has that group; any other \<open>$\<close> is kept.
\<close>

definition is_digit :: "char \<Rightarrow> bool" where
  "is_digit c \<longleftrightarrow> CHR ''0'' \<le> c \<and> c \<le> CHR ''9''"

definition digit_val :: "char \<Rightarrow> nat" where
  "digit_val c = of_char c - 48"

definition capture_text :: "captures \<Rightarrow> nat \<Rightarrow> string" where
  "capture_text caps k = (case caps k of None \<Rightarrow> [] | Some t \<Rightarrow> t)"

fun subst :: "nat \<Rightarrow> string \<Rightarrow> string \<Rightarrow> string \<Rightarrow> captures \<Rightarrow> string \<Rightarrow> string" where
  "subst m matched pre post caps [] = []"
| "subst m matched pre post caps (c # t) =
     (if c \<noteq> CHR ''$'' then c # subst m matched pre post caps t
      else case t of
        [] \<Rightarrow> [c]
      | d # t' \<Rightarrow>
          if d = CHR ''$'' then CHR ''$'' # subst m matched pre post caps t'
          else if d = CHR ''&'' then matched @ subst m matched pre post caps t'
          else if d = CHR 0x60 then pre @ subst m matched pre post caps t'
          else if d = CHR 0x27 then post @ subst m matched pre post caps t'
          else if is_digit d then
            (case t' of
               e # t'' \<Rightarrow>
                 if is_digit e \<and> 1 \<le> 10 * digit_val d + digit_val e
                    \<and> 10 * digit_val d + digit_val e \<le> m
                 then capture_text caps (10 * digit_val d + digit_val e)
                      @ subst m matched pre post caps t''
                 else if 1 \<le> digit_val d \<and> digit_val d \<le> m
                 then capture_text caps (digit_val d) @ subst m matched pre post caps t'
                 else c # subst m matched pre post caps t
             | [] \<Rightarrow>
                 if 1 \<le> digit_val d \<and> digit_val d \<le> m
                 then capture_text caps (digit_val d) @ subst m matched pre post caps t'
                 else c # subst m matched pre post caps t)
          else c # subst m matched pre post caps t)"

text \<open>
  \<^verbatim>\<open>String.prototype.replace\<close> with a pattern without the \<open>g\<close> flag: the leftmost match
  is replaced, a text without a match is returned as it is.
\<close>

type_synonym replacer = "string \<Rightarrow> string \<Rightarrow> string \<Rightarrow> captures \<Rightarrow> string"

definition replace_first :: "re \<Rightarrow> replacer \<Rightarrow> string \<Rightarrow> string" where
  "replace_first r f s =
     (case search r (length s) [] s of
        None \<Rightarrow> s
      | Some (pre, matched, post, caps) \<Rightarrow> pre @ f matched pre post caps @ post)"

text \<open>
  With the \<open>g\<close> flag every match is replaced, searching on from the end of the last
  match; after an empty match the search moves on by one character.
\<close>

function replace_all :: "re \<Rightarrow> replacer \<Rightarrow> nat \<Rightarrow> string \<Rightarrow> string \<Rightarrow> string" where
  "replace_all r f n pre s =
     (case exec_at r n s of
        Some (s', caps) \<Rightarrow>
          (let matched = take (length s - length s') s in
           f matched pre s' caps @
           (if matched = [] then
              (case s of [] \<Rightarrow> [] | c # cs \<Rightarrow> c # replace_all r f n (pre @ [c]) cs)
            else replace_all r f n (pre @ matched) s'))
      | None \<Rightarrow>
          (case s of [] \<Rightarrow> [] | c # cs \<Rightarrow> c # replace_all r f n (pre @ [c]) cs))"
  by pat_completeness auto
termination
  by (relation "measure (\<lambda>(r, f, n, pre, s). length s)") auto

declare replace_all.simps [simp del]

definition replace_global :: "re \<Rightarrow> replacer \<Rightarrow> string \<Rightarrow> string" where
  "replace_global r f s = replace_all r f (length s) [] s"


section \<open>The documentation file\<close>

text \<open>
  A \<^verbatim>\<open>DocFile\<close>: the rule, the path of its markdown file and the text read from it.
  Every operation returns the object it updated. The rule is part of the state,
  since it is an object shared with the rule registry.
\<close>

record doc_file =
  rule :: rule_module
  filePath :: string
  content :: string

definition title :: "rule_module \<Rightarrow> string" where
  "title r = ''# '' @ ruleId (docs r) @ [NL, NL] @ ''> '' @ description (docs r)"

definition replacedRules :: "string list \<Rightarrow> string list" where
  "replacedRules names = map (\<lambda>name. ''[yml/'' @ name @ '']('' @ name @ ''.md) rule'') names"

definition presets :: "string list \<Rightarrow> string list" where
  "presets cats =
     map (\<lambda>cat. [CHR 0x60, CHR 0x22] @ ''plugin:yml/'' @ cat @ [CHR 0x22, CHR 0x60]) cats"

definition deprecated_note :: "string list option \<Rightarrow> string" where
  "deprecated_note rb =
     (case rb of
        Some names \<Rightarrow>
          ''- :warning: This rule was **deprecated** and replaced by ''
          @ formatItems (replacedRules names) @ ''.''
      | None \<Rightarrow> ''- :warning: This rule was **deprecated**.'')"

definition preset_note :: "string list \<Rightarrow> string" where
  "preset_note sorted_cats =
     ''- :gear: This rule is included in '' @ formatItems (presets sorted_cats) @ ''.''"

definition fix_note :: string where
  "fix_note =
     ''- :wrench: The '' @ [CHR 0x60] @ ''--fix'' @ [CHR 0x60]
     @ '' option on the [command line](https://eslint.org/docs/user-guide/command-line-interface#fixing-problems) can automatically fix some of the problems reported by this rule.''"

text \<open>
  The notes of the header, in the order they are pushed. \<^verbatim>\<open>categories.sort()\<close> sorts
  the array by the default order of strings; the notes are built from the sorted array.
\<close>

definition header_notes :: "rule_module \<Rightarrow> string list" where
  "header_notes r =
     (let ns0 =
            (if deprecated r then [deprecated_note (replacedBy (docs r))]
             else (case categories (docs r) of
                     Some cats \<Rightarrow> [preset_note (sort cats)]
                   | None \<Rightarrow> []));
          ns1 = (if fixable r then ns0 @ [fix_note] else ns0)
      in if length ns1 \<ge> 1 then ns1 @ [[], []] else ns1)"

definition header :: "rule_module \<Rightarrow> string" where
  "header r = title r @ [NL, NL] @ join [NL] (header_notes r)"

text \<open>\<^verbatim>\<open>/#.+\n+[^\n]*\n+(?:- .+\n+)*\n*/u\<close>\<close>

definition headerPattern :: re where
  "headerPattern =
     Seqs [Chr CHR ''#'', Plus Dot, Plus (Chr NL), Star NotNl, Plus (Chr NL),
           Star (Seqs [Lit ''- '', Plus Dot, Plus (Chr NL)]), Star (Chr NL)]"

text \<open>
  \<^verbatim>\<open>categories.sort()\<close> sorts the array of the rule in place: after the call the rule
  holds the sorted array. It runs only for a rule that is not deprecated and has the
  array.
\<close>

definition sort_categories :: "rule_module \<Rightarrow> rule_module" where
  "sort_categories r =
     (if deprecated r then r
      else (case categories (docs r) of
              Some cats \<Rightarrow> r\<lparr>docs := (docs r)\<lparr>categories := Some (sort cats)\<rparr>\<rparr>
            | None \<Rightarrow> r))"

definition updateHeader :: "doc_file \<Rightarrow> doc_file" where
  "updateHeader d =
     (let h = header (rule d) in
      d\<lparr>rule := sort_categories (rule d),
        content :=
          (if test headerPattern (content d)
           then replace_first headerPattern (\<lambda>matched pre post caps. subst 0 matched pre post caps h)
                  (content d)
           else h @ trim (content d) @ [NL])\<rparr>)"

text \<open>
  The heart of the attribution line is two characters outside the modelled range; it
  stands as the six bytes of its UTF-8 encoding, none of them white space, a line
  terminator or a dollar sign.
\<close>

definition heart :: string where
  "heart = [CHR 0xE2, CHR 0x9D, CHR 0xA4, CHR 0xEF, CHR 0xB8, CHR 0x8F]"

definition footer :: "rule_module \<Rightarrow> string" where
  "footer r =
     ''## Implementation'' @ [NL, NL]
     @ ''- [Rule source](https://github.com/ota-meshi/eslint-plugin-yml/blob/master/src/rules/''
     @ ruleName (docs r) @ ''.ts)'' @ [NL]
     @ ''- [Test source](https://github.com/ota-meshi/eslint-plugin-yml/blob/master/tests/src/rules/''
     @ ruleName (docs r) @ ''.js)'' @ [NL]
     @ (if extensionRule (docs r)
        then [NL] @ ''<sup>Taken with '' @ heart
             @ '' [from ESLint core](https://eslint.org/docs/rules/'' @ ruleName (docs r)
             @ '')</sup>'' @ [NL]
        else [])"

text \<open>\<^verbatim>\<open>/## Implementation[\s\S]+$/u\<close>\<close>

definition footerPattern :: re where
  "footerPattern = Seqs [Lit ''## Implementation'', Plus AnyChar, Eol]"

definition updateFooter :: "doc_file \<Rightarrow> doc_file" where
  "updateFooter d =
     (let f = footer (rule d) in
      d\<lparr>content :=
          (if test footerPattern (content d)
           then replace_first footerPattern (\<lambda>matched pre post caps. subst 0 matched pre post caps f)
                  (content d)
           else trim (content d) @ [NL, NL] @ f)\<rparr>)"


section \<open>The example code blocks\<close>

text \<open>Every result of the matcher is a rest of the input it started from.\<close>

lemma ms_length: "(s', c') \<in> set (ms r n (s, c)) \<Longrightarrow> length s' \<le> length s"
proof (induction r n "(s, c)" arbitrary: s c s' c' rule: ms.induct)
  case (1 p n s caps)
  then show ?case by (auto split: list.splits if_splits)
next
  case (2 r1 r2 n s caps)
  then show ?case by fastforce
next
  case (3 r n s caps)
  from "3.prems" have "(s', c') = (s, caps) \<or>
     (\<exists>x y. (x, y) \<in> set (ms r n (s, caps)) \<and> length x < length s
            \<and> (s', c') \<in> set (ms (Star r) n (x, y)))"
    by (subst (asm) ms.simps(3)) (auto split: if_splits)
  then show ?case using "3.hyps"(2) by fastforce
next
  case (4 r n s caps)
  from "4.prems" have "(s', c') = (s, caps) \<or>
     (\<exists>x y. (x, y) \<in> set (ms r n (s, caps)) \<and> length x < length s
            \<and> (s', c') \<in> set (ms (LazyStar r) n (x, y)))"
    by (subst (asm) ms.simps(4)) (auto split: if_splits)
  then show ?case using "4.hyps"(2) by fastforce
next
  case (5 r n s caps)
  then show ?case by (auto split: if_splits)
next
  case (6 k r n s caps)
  then show ?case by (auto split: if_splits)
qed (auto split: if_splits)

lemma exec_at_length: "exec_at r n s = Some (s', c') \<Longrightarrow> length s' \<le> length s"
  unfolding exec_at_def using ms_length [of s' c' r n s Map.empty]
  by (auto split: list.splits)

text \<open>
  \<^verbatim>\<open>String.prototype.split\<close> with a pattern without capturing groups. \<open>cur\<close> is the piece
  collected since the last separator, the last argument the text from the position
  where a separator is tried next. A match that ends where the piece starts is not
  a separator.
\<close>

function split_loop :: "re \<Rightarrow> nat \<Rightarrow> string \<Rightarrow> string \<Rightarrow> string list" where
  "split_loop r n cur [] = [cur]"
| "split_loop r n cur (c # cs) =
     (case exec_at r n (c # cs) of
        None \<Rightarrow> split_loop r n (cur @ [c]) cs
      | Some (s', caps) \<Rightarrow>
          if cur = [] \<and> length s' = length (c # cs) then split_loop r n (cur @ [c]) cs
          else cur # split_loop r n [] s')"
  by pat_completeness auto
termination
proof (relation "measures [\<lambda>(r, n, cur, s). length s, \<lambda>(r, n, cur, s). if cur = [] then 0 else 1]",
       goal_cases)
  case 1
  show ?case by simp
next
  case (2 r n cur c cs)
  show ?case by simp
next
  case (3 r n cur c cs x2 x y)
  then show ?case by simp
next
  case (4 r n cur c cs x2 x y)
  then show ?case using exec_at_length [of r n "c # cs" x y] by auto
qed

definition split :: "re \<Rightarrow> string \<Rightarrow> string list" where
  "split r s =
     (if s = [] then (case exec_at r 0 [] of Some m \<Rightarrow> [] | None \<Rightarrow> [[]])
      else split_loop r (length s) [] s)"

text \<open>\<^verbatim>\<open>/<eslint-code-block(.*?)>/gu\<close> and the pattern \<^verbatim>\<open>/\s+/u\<close> the attributes are split at.\<close>

definition codeBlockPattern :: re where
  "codeBlockPattern = Seqs [Lit ''<eslint-code-block'', Group 1 (LazyStar Dot), Chr CHR ''>'']"

definition spacesPattern :: re where
  "spacesPattern = Plus Space"

text \<open>The replacer function of \<^verbatim>\<open>updateCodeBlocks\<close>, on the text of the first group.\<close>

definition codeBlockTag :: "bool \<Rightarrow> string \<Rightarrow> string" where
  "codeBlockTag fix str =
     (let ps = filter (\<lambda>s. s \<noteq> [] \<and> s \<noteq> ''fix'') (map trim (split spacesPattern str));
          ps1 = (if fix then ''fix'' # ps else ps);
          ps2 = ''<eslint-code-block'' # ps1
      in join '' '' ps2 @ ''>'')"

definition updateCodeBlocks :: "doc_file \<Rightarrow> doc_file" where
  "updateCodeBlocks d =
     d\<lparr>content :=
         replace_global codeBlockPattern
           (\<lambda>matched pre post caps. codeBlockTag (fixable (rule d)) (capture_text caps 1))
           (content d)\<rparr>"

text \<open>
  \<^verbatim>\<open>/(<eslint-code-block([\s\S]*?)>)\n+```/gmu\<close> and \<^verbatim>\<open>/```\n+<\/eslint-code-block>/gmu\<close>;
  neither has \<^verbatim>\<open>^\<close> or \<^verbatim>\<open>$\<close>, so the \<open>m\<close> flag changes nothing.
\<close>

definition fence :: string where
  "fence = [CHR 0x60, CHR 0x60, CHR 0x60]"

definition openFencePattern :: re where
  "openFencePattern =
     Seqs [Group 1 (Seqs [Lit ''<eslint-code-block'', Group 2 (LazyStar AnyChar), Chr CHR ''>'']),
           Plus (Chr NL), Lit fence]"

definition closeFencePattern :: re where
  "closeFencePattern = Seqs [Lit fence, Plus (Chr NL), Lit ''</eslint-code-block>'']"

definition adjustCodeBlocks :: "doc_file \<Rightarrow> doc_file" where
  "adjustCodeBlocks d =
     (let c1 = replace_global openFencePattern
                 (\<lambda>matched pre post caps. subst 2 matched pre post caps (''$1'' @ [NL, NL] @ fence))
                 (content d);
          c2 = replace_global closeFencePattern
                 (\<lambda>matched pre post caps.
                    subst 0 matched pre post caps (fence @ [NL, NL] @ ''</eslint-code-block>''))
                 c1
      in d\<lparr>content := c2\<rparr>)"

section \<open>The front matter\<close>

definition fileIntro :: "rule_module \<Rightarrow> (string \<times> jsval) list" where
  "fileIntro r =
     [(''pageClass'', JString ''rule-details''),
      (''sidebarDepth'', JNumber 0),
      (''title'', JString (ruleId (docs r))),
      (''description'', JString (description (docs r)))]"

definition computed :: "rule_module \<Rightarrow> string" where
  "computed r =
     ''---'' @ [NL]
     @ join [NL] (map (\<lambda>(key, v). key @ '': '' @ toString (yamlValue v)) (fileIntro r))
     @ [NL] @ ''---'' @ [NL]"

text \<open>\<^verbatim>\<open>/^---\n(.*\n)+---\n*/gu\<close>\<close>

definition fileIntroPattern :: re where
  "fileIntroPattern =
     Seqs [Bol, Lit (''---'' @ [NL]), Plus (Group 1 (Seq (Star Dot) (Chr NL))), Lit ''---'',
           Star (Chr NL)]"

definition updateFileIntro :: "doc_file \<Rightarrow> doc_file" where
  "updateFileIntro d =
     (let c = computed (rule d) in
      d\<lparr>content :=
          (if test fileIntroPattern (content d)
           then replace_global fileIntroPattern
                  (\<lambda>matched pre post caps. subst 1 matched pre post caps c) (content d)
           else c @ trim (content d) @ [NL])\<rparr>)"

section \<open>Reading and writing\<close>

text \<open>
  The file system is a map from paths to the text of the files. \<^verbatim>\<open>fs.readFileSync\<close> of
  a path without a file throws; the constructor of \<^verbatim>\<open>DocFile\<close> does not catch it.
  \<open>root\<close> is the directory \<^verbatim>\<open>ROOT\<close>; the path of a rule is \<open>root\<close>, a slash, the name of
  the rule and \<^verbatim>\<open>.md\<close>.
\<close>

type_synonym files = "string \<rightharpoonup> string"

datatype error = ENOENT string

definition read :: "string \<Rightarrow> files \<Rightarrow> rule_module \<Rightarrow> error + doc_file" where
  "read root fs r =
     (let p = root @ ''/'' @ ruleName (docs r) @ ''.md'' in
      case fs p of
        None \<Rightarrow> Inl (ENOENT p)
      | Some text \<Rightarrow> Inr \<lparr>rule = r, filePath = p, content = text\<rparr>)"

text \<open>\<^verbatim>\<open>/\r?\n/gu\<close>\<close>

definition lineEndPattern :: re where
  "lineEndPattern = Seqs [Opt (Chr CR), Chr NL]"

definition write_file :: "bool \<Rightarrow> files \<Rightarrow> doc_file \<Rightarrow> files" where
  "write_file isWin fs d =
     fs(filePath d \<mapsto>
        replace_global lineEndPattern
          (\<lambda>matched pre post caps. subst 0 matched pre post caps (if isWin then [CR, NL] else [NL]))
          (content d))"

text \<open>The body of the loop over the rules, and the loop: the first error ends the run.\<close>

definition process :: "bool \<Rightarrow> string \<Rightarrow> files \<Rightarrow> rule_module \<Rightarrow> error + files" where
  "process isWin root fs r =
     (case read root fs r of
        Inl e \<Rightarrow> Inl e
      | Inr d \<Rightarrow>
          Inr (write_file isWin fs
                 (adjustCodeBlocks (updateFileIntro (updateCodeBlocks (updateFooter (updateHeader d)))))))"

fun run :: "bool \<Rightarrow> string \<Rightarrow> files \<Rightarrow> rule_module list \<Rightarrow> files \<times> error option" where
  "run isWin root fs [] = (fs, None)"
| "run isWin root fs (r # rs) =
     (case process isWin root fs r of
        Inl e \<Rightarrow> (fs, Some e)
      | Inr fs' \<Rightarrow> run isWin root fs' rs)"

section \<open>Example rules and documents, and notions of the proofs\<close>

text \<open>\<open>occurs_in s w\<close>: the text \<open>w\<close> occurs in \<open>s\<close> (\<^verbatim>\<open>s.includes(w)\<close>).\<close>

fun occurs_in :: "string \<Rightarrow> string \<Rightarrow> bool" where
  "occurs_in [] w = (w = [])"
| "occurs_in (c # cs) w = (prefix w (c # cs) \<or> occurs_in cs w)"

definition d_unsorted :: doc_file where
  "d_unsorted =
     \<lparr>rule = \<lparr>fixable = False, deprecated = False,
              docs = \<lparr>ruleId = ''yml/x'', ruleName = ''x'', description = ''d'',
                       categories = Some [''strict'', ''recommended''],
                       replacedBy = None, extensionRule = False\<rparr>\<rparr>,
      filePath = ''docs/rules/x.md'', content = []\<rparr>"

definition r_replaced :: rule_module where
  "r_replaced =
     \<lparr>fixable = False, deprecated = True,
      docs = \<lparr>ruleId = ''yml/x'', ruleName = ''x'', description = ''d'', categories = None,
               replacedBy = Some [''a'', ''b'', ''c''], extensionRule = False\<rparr>\<rparr>"

definition r_no_presets :: rule_module where
  "r_no_presets =
     \<lparr>fixable = False, deprecated = False,
      docs = \<lparr>ruleId = ''yml/x'', ruleName = ''x'', description = ''d'', categories = Some [],
               replacedBy = None, extensionRule = False\<rparr>\<rparr>"

definition r_dollar :: rule_module where
  "r_dollar =
     \<lparr>fixable = False, deprecated = False,
      docs = \<lparr>ruleId = ''yml/x'', ruleName = ''x'', description = ''$$'', categories = None,
               replacedBy = None, extensionRule = False\<rparr>\<rparr>"

definition doc_intro :: string where
  "doc_intro = ''---'' @ [NL] @ ''a'' @ [NL] @ ''---'' @ [NL]"

text \<open>
  The escaping in the words of the specification: a backslash before every backslash
  and every double quote, every other character as it is. \<open>read_double_quoted\<close> reads a
  double-quoted scalar back, as far as these two escapes go: the text between the
  quotes with \<open>\\\<close> and \<open>\"\<close> unescaped; a scalar that is split over lines is not
  folded.
\<close>

definition escape_char :: "char \<Rightarrow> string" where
  "escape_char c = (if c = CHR 0x5C \<or> c = CHR 0x22 then [CHR 0x5C, c] else [c])"

fun read_body :: "string \<Rightarrow> string option" where
  "read_body [] = None"
| "read_body (c # t) =
     (if c = CHR 0x22 then (if t = [] then Some [] else None)
      else if c = CHR 0x5C then
        (case t of
           [] \<Rightarrow> None
         | d # t' \<Rightarrow>
             if d = CHR 0x5C \<or> d = CHR 0x22 then map_option ((#) d) (read_body t') else None)
      else map_option ((#) c) (read_body t))"

definition read_double_quoted :: "string \<Rightarrow> string option" where
  "read_double_quoted v =
     (case v of [] \<Rightarrow> None | c # t \<Rightarrow> if c = CHR 0x22 then read_body t else None)"

text \<open>The rests of a text after none, one, two, ... of its leading characters of a class.\<close>

fun rests :: "(char \<Rightarrow> bool) \<Rightarrow> string \<Rightarrow> string list" where
  "rests p [] = [[]]"
| "rests p (a # t) = (a # t) # (if p a then rests p t else [])"

text \<open>A pattern that cannot start with a character of the class.\<close>

definition rejects :: "(char \<Rightarrow> bool) \<Rightarrow> re \<Rightarrow> bool" where
  "rejects p r \<longleftrightarrow> (\<forall>n c t caps. p c \<longrightarrow> ms r n (c # t, caps) = [])"

text \<open>The characters \<^verbatim>\<open>.\<close> matches, and the line feed, as predicates.\<close>

definition dotp :: "char \<Rightarrow> bool" where
  "dotp c \<longleftrightarrow> \<not> is_line_terminator c"

definition nlp :: "char \<Rightarrow> bool" where
  "nlp c \<longleftrightarrow> c = NL"

text \<open>
  One line of the front matter, \<^verbatim>\<open>(.*\n)\<close>, and its end, \<^verbatim>\<open>---\n*\<close>. \<open>line_rest s\<close> is
  the text after the first line of \<open>s\<close>, when that line ends with a line feed;
  \<open>lines_text ls\<close> is the text of the lines \<open>ls\<close>, each followed by a line feed;
  \<open>last_line c ls\<close> are the captures \<open>c\<close> after the group has matched the lines \<open>ls\<close>.
\<close>

definition lineRe :: re where
  "lineRe = Group 1 (Seq (Star Dot) (Chr NL))"

definition line_rest :: "string \<Rightarrow> string option" where
  "line_rest s = (case dropWhile dotp s of [] \<Rightarrow> None | c # t \<Rightarrow> if c = NL then Some t else None)"

definition endRe :: re where
  "endRe = Seqs [Lit ''---'', Star (Chr NL)]"

fun lines_text :: "string list \<Rightarrow> string" where
  "lines_text [] = []"
| "lines_text (l # ls) = l @ [NL] @ lines_text ls"

definition last_line :: "captures \<Rightarrow> string list \<Rightarrow> captures" where
  "last_line c ls = (if ls = [] then c else c(1 \<mapsto> last ls @ [NL]))"

text \<open>A rule without a dollar sign in its texts, and two documents with a front matter.\<close>

definition r_plain :: rule_module where
  "r_plain =
     \<lparr>fixable = False, deprecated = False,
      docs = \<lparr>ruleId = ''yml/x'', ruleName = ''x'', description = ''d'', categories = None,
               replacedBy = None, extensionRule = False\<rparr>\<rparr>"

definition doc_blank :: string where
  "doc_blank = ''---'' @ [NL] @ ''a'' @ [NL] @ ''---'' @ [NL, NL, NL] @ ''b'' @ [NL]"

definition doc_dashes :: string where
  "doc_dashes = ''---'' @ [NL] @ ''a'' @ [NL] @ ''---'' @ [NL] @ ''b'' @ [NL] @ ''---'' @ [NL] @ ''c'' @ [NL]"

definition doc_crlf :: string where
  "doc_crlf = ''---'' @ [CR, NL] @ ''a'' @ [CR, NL] @ ''---'' @ [CR, NL]"

text \<open>The first match of a pattern ends before a character that is no line feed.\<close>

definition ends_ok :: "re \<Rightarrow> bool" where
  "ends_ok r \<longleftrightarrow> (\<forall>n x s' c' zs. ms r n x = (s', c') # zs \<longrightarrow> s' = [] \<or> hd s' \<noteq> NL)"

text \<open>Two fixable rules, one with a dollar sign in a preset name, and a document with a header.\<close>

definition r_dollar_preset :: rule_module where
  "r_dollar_preset =
     \<lparr>fixable = True, deprecated = False,
      docs = \<lparr>ruleId = ''yml/x'', ruleName = ''x'', description = ''d'', categories = Some [''$$''],
               replacedBy = None, extensionRule = False\<rparr>\<rparr>"

definition r_fixable :: rule_module where
  "r_fixable =
     \<lparr>fixable = True, deprecated = False,
      docs = \<lparr>ruleId = ''yml/x'', ruleName = ''x'', description = ''d'',
               categories = Some [''strict'', ''recommended''],
               replacedBy = None, extensionRule = False\<rparr>\<rparr>"

definition doc_header :: string where
  "doc_header = ''# yml/x'' @ [NL, NL] @ ''> old'' @ [NL, NL] @ ''## Options'' @ [NL]"

definition first :: "'a list \<Rightarrow> 'a option" where
  "first xs = (case xs of [] \<Rightarrow> None | m # _ \<Rightarrow> Some m)"

text \<open>
  The first element of a list of matches. \<open>tag_body\<close> reads the attributes of a tag: the text
  up to the first \<open>>\<close>, on one line, and the text after it; \<open>tag_at\<close> reads a tag at the start
  of a text.
\<close>

fun tag_body :: "string \<Rightarrow> (string \<times> string) option" where
  "tag_body [] = None"
| "tag_body (a # u) =
     (if a = CHR ''>'' then Some ([], u)
      else if dotp a then map_option (\<lambda>(x, r). (a # x, r)) (tag_body u)
      else None)"

definition tagOpen :: string where
  "tagOpen = ''<eslint-code-block''"

definition tagRest :: string where
  "tagRest = ''eslint-code-block''"

definition tag_at :: "string \<Rightarrow> (string \<times> string) option" where
  "tag_at s = (if prefix tagOpen s then tag_body (drop (length tagOpen) s) else None)"

text \<open>The words of a text: its longest pieces without white space. \<open>cur\<close> is the word begun.\<close>

fun wds :: "string \<Rightarrow> string \<Rightarrow> string list" where
  "wds cur [] = (if cur = [] then [] else [cur])"
| "wds cur (c # cs) =
     (if is_space c then (if cur = [] then wds [] cs else cur # wds [] cs)
      else wds (cur @ [c]) cs)"

definition tag_words :: "bool \<Rightarrow> string \<Rightarrow> string list" where
  "tag_words fix x = (if fix then [''fix''] else []) @ filter (\<lambda>s. s \<noteq> ''fix'') (wds [] x)"

section \<open>Example rules and documents\<close>

section \<open>The notes of the header\<close>

lemma test_empty_header: "\<not> test headerPattern []"
  by (simp add: test_def exec_at_def headerPattern_def Seqs_def Chr_def)

text \<open>
  C1, as the specification states it, fails: for the replacement rules \<open>a\<close>, \<open>b\<close>, \<open>c\<close> the
  text \<open>replaced by all of [a](a.md) rule, [b](b.md) rule and [c](c.md) rule.\<close> occurs
  nowhere in the rewritten document. The text of each link is the name of the rule
  with the prefix \<open>yml/\<close>.
\<close>

theorem C1_counterexample:
  "\<not> occurs_in (content (updateHeader \<lparr>rule = r_replaced, filePath = ''docs/rules/x.md'', content = []\<rparr>))
       ''replaced by all of [a](a.md) rule, [b](b.md) rule and [c](c.md) rule.''"
  by (simp add: updateHeader_def test_empty_header r_replaced_def header_def title_def
      header_notes_def deprecated_note_def replacedRules_def formatItems_def trim_def NL_def)

text \<open>
  C1, amended: for every deprecated rule whose replacement list has exactly three names
  \<open>A\<close>, \<open>B\<close>, \<open>C\<close>, the header the rewrite builds is the title, a blank line, the note
  \<open>- :warning: This rule was **deprecated** and replaced by all of [yml/A](A.md) rule,
  [yml/B](B.md) rule and [yml/C](C.md) rule.\<close>, the fix note if the rule is fixable, and a
  blank line. The list grammar: one item is rendered by itself, two items as
  \<open>A and B\<close>, three or more as \<open>all of\<close>, the items but the last separated by
  commas, \<open>and\<close>, the last item.
\<close>

theorem C1_deprecation_note:
  assumes "deprecated r" and "replacedBy (docs r) = Some [A, B, C]"
  shows "header r =
           title r @ [NL, NL]
           @ ''- :warning: This rule was **deprecated** and replaced by all of [yml/'' @ A @ '']('' @ A
           @ ''.md) rule, [yml/'' @ B @ '']('' @ B @ ''.md) rule and [yml/'' @ C @ '']('' @ C
           @ ''.md) rule.'' @ [NL]
           @ (if fixable r then fix_note @ [NL] else []) @ [NL]
         \<and> formatItems [A] = A
         \<and> formatItems [A, B] = A @ '' and '' @ B
         \<and> (\<forall>items. 3 \<le> length items \<longrightarrow>
                formatItems items = ''all of '' @ join '', '' (butlast items) @ '' and '' @ last items)"
  using assms
  by (simp add: header_def header_notes_def deprecated_note_def replacedRules_def formatItems_def)

text \<open>The amended C1 at the rule replaced by \<open>a\<close>, \<open>b\<close> and \<open>c\<close>.\<close>

theorem C1_deprecation_note_witness:
  "deprecated r_replaced \<and> replacedBy (docs r_replaced) = Some [''a'', ''b'', ''c'']
   \<and> header r_replaced =
       ''# yml/x'' @ [NL, NL] @ ''> d'' @ [NL, NL]
       @ ''- :warning: This rule was **deprecated** and replaced by all of [yml/a](a.md) rule, [yml/b](b.md) rule and [yml/c](c.md) rule.''
       @ [NL, NL]"
  using C1_deprecation_note [of r_replaced "''a''" "''b''" "''c''"]
  by (simp add: r_replaced_def title_def)

text \<open>
  C2 fails on the code: the header rewrite sorts the category array of the rule in
  place. For a rule that is not deprecated and has the categories \<open>strict\<close>,
  \<open>recommended\<close>, in that order, the rule holds them in the order \<open>recommended\<close>, \<open>strict\<close>
  after the rewrite.
\<close>

theorem C2_header_sorts_categories_in_place:
  "categories (docs (rule d_unsorted)) = Some [''strict'', ''recommended'']
   \<and> categories (docs (rule (updateHeader d_unsorted))) = Some [''recommended'', ''strict'']
   \<and> rule (updateHeader d_unsorted) \<noteq> rule d_unsorted"
  by (simp add: d_unsorted_def updateHeader_def sort_categories_def Let_def)

text \<open>
  C3 fails on the code for a rule whose category array is empty: the rule belongs to no
  preset, and the header gets a preset note with an empty list of names.
\<close>

theorem C3_empty_categories_note:
  "\<not> deprecated r_no_presets \<and> categories (docs r_no_presets) = Some []
   \<and> header_notes r_no_presets = [''- :gear: This rule is included in .'', [], []]"
  by (simp add: r_no_presets_def header_notes_def preset_note_def presets_def formatItems_def)

text \<open>
  For a rule that is not deprecated, the notes start with the preset note exactly when
  the rule has a category array, and the note lists the names in sorted order.
\<close>

lemma preset_note_sorted:
  assumes "\<not> deprecated r" and "categories (docs r) = Some cats"
  shows "header_notes r =
           [preset_note (sort cats)] @ (if fixable r then [fix_note] else []) @ [[], []]"
    and "sorted (sort cats)" and "set (sort cats) = set cats"
    and "length (sort cats) = length cats"
  using assms by (simp_all add: header_notes_def)

lemma no_preset_note:
  assumes "\<not> deprecated r" and "categories (docs r) = None"
  shows "header_notes r = (if fixable r then [fix_note, [], []] else [])"
  using assms by (simp add: header_notes_def)

section \<open>A missing documentation file\<close>

lemma run_append_error:
  "run isWin root fs ps = (fs', None) \<Longrightarrow> process isWin root fs' r = Inl e \<Longrightarrow>
   run isWin root fs (ps @ r # rs) = (fs', Some e)"
  by (induction ps arbitrary: fs) (auto split: sum.splits)

text \<open>
  C8: when the documentation file of a rule is missing, reading it fails, nothing is
  transformed or written for the rule, and the run ends with that error: the files are
  as the rules before it left them, and no later rule is processed.
\<close>

theorem C8_missing_file_aborts:
  assumes "fs' (root @ ''/'' @ ruleName (docs r) @ ''.md'') = None"
    and "run isWin root fs ps = (fs', None)"
  shows "read root fs' r = Inl (ENOENT (root @ ''/'' @ ruleName (docs r) @ ''.md''))
         \<and> process isWin root fs' r = Inl (ENOENT (root @ ''/'' @ ruleName (docs r) @ ''.md''))
         \<and> run isWin root fs (ps @ r # rs)
             = (fs', Some (ENOENT (root @ ''/'' @ ruleName (docs r) @ ''.md'')))"
proof -
  have rd: "read root fs' r = Inl (ENOENT (root @ ''/'' @ ruleName (docs r) @ ''.md''))"
    using assms(1) by (simp add: read_def)
  then have pr: "process isWin root fs' r = Inl (ENOENT (root @ ''/'' @ ruleName (docs r) @ ''.md''))"
    by (simp add: process_def)
  show ?thesis using rd pr run_append_error [OF assms(2) pr] by simp
qed

text \<open>C8 on an empty directory: the run ends at the first rule and writes nothing.\<close>

theorem C8_missing_file_aborts_witness:
  "run False ''docs/rules'' Map.empty [r_replaced, r_no_presets]
     = (Map.empty, Some (ENOENT ''docs/rules/x.md''))"
  using C8_missing_file_aborts [of Map.empty "''docs/rules''" r_replaced False Map.empty "[]" "[r_no_presets]"]
  by (simp add: r_replaced_def)

section \<open>The values of the front matter\<close>

lemma digits_0: "digits 0 = ''0''"
  by code_simp

lemma escape_both: "escape_quote (escape_backslash s) = concat (map escape_char s)"
  by (induction s) (simp_all add: escape_quote_def escape_backslash_def escape_char_def)

lemma read_body_escaped: "read_body (concat (map escape_char s) @ [CHR 0x22]) = Some s"
  by (induction s) (simp_all add: escape_char_def)

lemma yamlValue_string:
  "toString (yamlValue (JString s)) = [CHR 0x22] @ concat (map escape_char s) @ [CHR 0x22]"
  by (simp add: yamlValue_def toString_def escape_both)

lemma yamlValue_number: "toString (yamlValue (JNumber n)) = digits n"
  by (simp add: yamlValue_def toString_def)

lemma yamlValue_reads_back: "read_double_quoted (toString (yamlValue (JString s))) = Some s"
  by (simp add: yamlValue_string read_double_quoted_def read_body_escaped)

lemma computed_eq:
  "computed r =
     ''---'' @ [NL]
     @ ''pageClass: '' @ [CHR 0x22] @ ''rule-details'' @ [CHR 0x22, NL]
     @ ''sidebarDepth: 0'' @ [NL]
     @ ''title: '' @ [CHR 0x22] @ concat (map escape_char (ruleId (docs r))) @ [CHR 0x22, NL]
     @ ''description: '' @ [CHR 0x22] @ concat (map escape_char (description (docs r))) @ [CHR 0x22, NL]
     @ ''---'' @ [NL]"
  by (simp add: computed_def fileIntro_def yamlValue_string yamlValue_number digits_0)
    (simp add: yamlValue_def toString_def escape_char_def escape_quote_def escape_backslash_def)

lemma updateFileIntro_insert:
  "\<not> test fileIntroPattern (content d) \<Longrightarrow>
   content (updateFileIntro d) = computed (rule d) @ trim (content d) @ [NL]"
  by (simp add: updateFileIntro_def)

text \<open>
  C5 fails on the code when the document already has a front-matter block: the block is
  put in with \<^verbatim>\<open>String.prototype.replace\<close> and a replacement string, in which \<open>$$\<close>
  stands for one dollar sign. For the description \<open>$$\<close> the value written is \<open>$\<close>, which does
  not read back as the description.
\<close>

theorem C5_dollar_in_description:
  "description (docs r_dollar) = ''$$''
   \<and> content (updateFileIntro \<lparr>rule = r_dollar, filePath = ''docs/rules/x.md'', content = doc_intro\<rparr>)
     = ''---'' @ [NL] @ ''pageClass: '' @ [CHR 0x22] @ ''rule-details'' @ [CHR 0x22, NL]
       @ ''sidebarDepth: 0'' @ [NL] @ ''title: '' @ [CHR 0x22] @ ''yml/x'' @ [CHR 0x22, NL]
       @ ''description: '' @ [CHR 0x22] @ ''$'' @ [CHR 0x22, NL] @ ''---'' @ [NL]"
  by code_simp

section \<open>Properties of the matcher\<close>

lemma ms_Chr: "ms (Chr c) n (s, caps) = (if s \<noteq> [] \<and> hd s = c then [(tl s, caps)] else [])"
  by (cases s) (simp_all add: Chr_def)

lemma ms_Lit: "ms (Lit w) n (s, caps) = (if prefix w s then [(drop (length w) s, caps)] else [])"
proof (induction w arbitrary: s)
  case Nil
  show ?case by (simp add: Lit_def)
next
  case (Cons a w)
  have "ms (Lit (a # w)) n (s, caps) = concat (map (ms (Lit w) n) (ms (Chr a) n (s, caps)))"
    by (simp add: Lit_def)
  then show ?case using Cons.IH by (cases s) (auto simp: ms_Chr)
qed

lemma ms_Seqs_Nil: "ms (Seqs []) n x = [x]"
  by (cases x) (simp add: Seqs_def)

lemma ms_Seqs_Cons: "ms (Seqs (r # rs)) n x = concat (map (ms (Seqs rs) n) (ms r n x))"
  by (cases x) (simp add: Seqs_def)

lemma ms_Plus: "ms (Plus r) n x = concat (map (ms (Star r) n) (ms r n x))"
  by (cases x) (simp add: Plus_def)

lemma ms_Star_Sym: "ms (Star (Sym p)) n (s, caps) = map (\<lambda>t. (t, caps)) (rev (rests p s))"
  by (induction s) (simp_all add: ms.simps(3) [of "Sym p"])

lemma ms_LazyStar_Sym: "ms (LazyStar (Sym p)) n (s, caps) = map (\<lambda>t. (t, caps)) (rests p s)"
  by (induction s) (simp_all add: ms.simps(4) [of "Sym p"])

text \<open>
  After a greedy repetition of a class, a pattern that rejects the class matches only
  where the repetition took every character it could: backtracking into the repetition
  finds nothing.
\<close>

lemma rests_rejects:
  assumes "rejects p r"
  shows "concat (map (\<lambda>t. ms r n (t, caps)) (rev (rests p s))) = ms r n (dropWhile p s, caps)"
proof (induction s)
  case Nil
  show ?case by simp
next
  case (Cons a s)
  show ?case
  proof (cases "p a")
    case True
    then have "ms r n (a # s, caps) = []" using assms by (simp add: rejects_def)
    then show ?thesis using True Cons.IH by simp
  next
    case False
    then show ?thesis by simp
  qed
qed

lemma ms_Star_Sym_then:
  assumes "rejects p r"
  shows "concat (map (ms r n) (ms (Star (Sym p)) n (s, caps))) = ms r n (dropWhile p s, caps)"
  using rests_rejects [OF assms, of n caps s] by (simp add: ms_Star_Sym comp_def)

lemma ms_Plus_Sym_then:
  assumes "rejects p r"
  shows "concat (map (ms r n) (ms (Plus (Sym p)) n (s, caps)))
         = (if s \<noteq> [] \<and> p (hd s) then ms r n (dropWhile p s, caps) else [])"
proof (cases s)
  case Nil
  then show ?thesis by (simp add: ms_Plus)
next
  case (Cons a t)
  show ?thesis
  proof (cases "p a")
    case True
    then have "ms (Plus (Sym p)) n (s, caps) = ms (Star (Sym p)) n (t, caps)"
      using Cons by (simp add: ms_Plus)
    then show ?thesis using True Cons ms_Star_Sym_then [OF assms] by simp
  next
    case False
    then show ?thesis using Cons by (simp add: ms_Plus)
  qed
qed

lemma rejects_Lit: "w \<noteq> [] \<Longrightarrow> \<not> p (hd w) \<Longrightarrow> rejects p (Seq (Lit w) r)"
  by (cases w) (auto simp: rejects_def ms_Lit)

lemma rejects_Chr: "\<not> p c \<Longrightarrow> rejects p (Seq (Chr c) r)"
  by (auto simp: rejects_def ms_Chr)

lemma rejects_Chr': "\<not> p c \<Longrightarrow> rejects p (Chr c)"
  by (auto simp: rejects_def ms_Chr)

lemma Dot_Sym: "Dot = Sym dotp"
  by (simp add: Dot_def dotp_def [abs_def])

lemma Chr_NL_Sym: "Chr NL = Sym nlp"
  by (simp add: Chr_def nlp_def [abs_def])

lemma rev_rests: "\<exists>zs. rev (rests p s) = dropWhile p s # zs"
proof (induction s)
  case Nil
  show ?case by simp
next
  case (Cons a s)
  then show ?case by (cases "p a") auto
qed

lemma concat_map_hd:
  "concat (map f xs) = y # ys \<Longrightarrow> \<exists>x \<in> set xs. \<exists>zs. f x = y # zs"
proof (induction xs)
  case Nil
  then show ?case by simp
next
  case (Cons a xs)
  then show ?case by (cases "f a") auto
qed

text \<open>A match is a prefix of the text it starts in; a match found by the search splits the text.\<close>

lemma ms_suffix: "(s', c') \<in> set (ms r n (s, c)) \<Longrightarrow> suffix s' s"
proof (induction r n "(s, c)" arbitrary: s c s' c' rule: ms.induct)
  case (1 p n s caps)
  then show ?case by (auto split: list.splits if_splits simp: suffix_Cons)
next
  case (2 r1 r2 n s caps)
  from "2.prems" obtain x y where "(x, y) \<in> set (ms r1 n (s, caps))"
    and "(s', c') \<in> set (ms r2 n (x, y))" by auto
  then show ?case using "2.hyps" suffix_order.trans by blast
next
  case (3 r n s caps)
  from "3.prems" have "(s', c') = (s, caps) \<or>
     (\<exists>x y. (x, y) \<in> set (ms r n (s, caps)) \<and> length x < length s
            \<and> (s', c') \<in> set (ms (Star r) n (x, y)))"
    by (subst (asm) ms.simps(3)) (auto split: if_splits)
  then show ?case
  proof
    assume "(s', c') = (s, caps)"
    then show ?thesis by simp
  next
    assume "\<exists>x y. (x, y) \<in> set (ms r n (s, caps)) \<and> length x < length s
            \<and> (s', c') \<in> set (ms (Star r) n (x, y))"
    then obtain x y where xy: "(x, y) \<in> set (ms r n (s, caps))" and lt: "length x < length s"
      and in': "(s', c') \<in> set (ms (Star r) n (x, y))" by blast
    have "suffix x s" using "3.hyps"(1) [OF xy] .
    moreover have "suffix s' x" using "3.hyps"(2) [OF xy refl lt in'] .
    ultimately show ?thesis by (rule suffix_order.trans [rotated])
  qed
next
  case (4 r n s caps)
  from "4.prems" have "(s', c') = (s, caps) \<or>
     (\<exists>x y. (x, y) \<in> set (ms r n (s, caps)) \<and> length x < length s
            \<and> (s', c') \<in> set (ms (LazyStar r) n (x, y)))"
    by (subst (asm) ms.simps(4)) (auto split: if_splits)
  then show ?case
  proof
    assume "(s', c') = (s, caps)"
    then show ?thesis by simp
  next
    assume "\<exists>x y. (x, y) \<in> set (ms r n (s, caps)) \<and> length x < length s
            \<and> (s', c') \<in> set (ms (LazyStar r) n (x, y))"
    then obtain x y where xy: "(x, y) \<in> set (ms r n (s, caps))" and lt: "length x < length s"
      and in': "(s', c') \<in> set (ms (LazyStar r) n (x, y))" by blast
    have "suffix x s" using "4.hyps"(1) [OF xy] .
    moreover have "suffix s' x" using "4.hyps"(2) [OF xy refl lt in'] .
    ultimately show ?thesis by (rule suffix_order.trans [rotated])
  qed
next
  case (5 r n s caps)
  then show ?case by (auto split: if_splits)
next
  case (6 k r n s caps)
  then show ?case by (auto split: if_splits)
qed (auto split: if_splits)

lemma exec_at_suffix:
  assumes "exec_at r n s = Some (s', c')"
  shows "s = take (length s - length s') s @ s'"
proof -
  have "(s', c') \<in> set (ms r n (s, Map.empty))"
    using assms by (auto simp: exec_at_def split: list.splits)
  then have "suffix s' s" by (rule ms_suffix)
  then obtain a where "s = a @ s'" by (auto simp: suffix_def)
  then show ?thesis by simp
qed

lemma search_decomp:
  "search r n p s = Some (pre, matched, post, caps) \<Longrightarrow>
   p @ s = pre @ matched @ post \<and> exec_at r n (matched @ post) = Some (post, caps)"
proof (induction s arbitrary: p)
  case Nil
  then obtain s' where ex: "exec_at r n [] = Some (s', caps)" and "pre = p" "matched = []" "post = s'"
    by (auto split: option.splits)
  moreover have "s' = []" using exec_at_suffix [OF ex] by simp
  ultimately show ?case by simp
next
  case (Cons c cs)
  show ?case
  proof (cases "exec_at r n (c # cs)")
    case None
    then have "search r n (p @ [c]) cs = Some (pre, matched, post, caps)" using Cons.prems by simp
    then show ?thesis using Cons.IH [of "p @ [c]"] by simp
  next
    case (Some m)
    obtain s' c' where m: "m = (s', c')" by (cases m)
    have e: "pre = p" "matched = take (length (c # cs) - length s') (c # cs)" "post = s'" "caps = c'"
      using Cons.prems Some m by auto
    have "c # cs = matched @ post" using exec_at_suffix [of r n "c # cs" s' c'] Some m e by simp
    then show ?thesis using Some m e by simp
  qed
qed

lemma replace_all_no_match:
  "(\<And>t. suffix t s \<Longrightarrow> exec_at r n t = None) \<Longrightarrow> replace_all r f n pre s = s"
proof (induction s arbitrary: pre)
  case Nil
  then have "exec_at r n [] = None" by simp
  then show ?case by (simp add: replace_all.simps)
next
  case (Cons c cs)
  have "exec_at r n (c # cs) = None" using Cons.prems by simp
  moreover have "replace_all r f n (pre @ [c]) cs = cs"
    using Cons.prems by (intro Cons.IH) (simp add: suffix_Cons)
  ultimately show ?case by (simp add: replace_all.simps [of r f n pre "c # cs"])
qed

lemma occurs_in_iff: "occurs_in s w \<longleftrightarrow> (\<exists>a b. s = a @ w @ b)"
proof (induction s)
  case Nil
  show ?case by auto
next
  case (Cons c s)
  show ?case
  proof
    assume "occurs_in (c # s) w"
    then consider "prefix w (c # s)" | "occurs_in s w" by auto
    then show "\<exists>a b. c # s = a @ w @ b"
    proof cases
      case 1
      then obtain b where "c # s = w @ b" by (auto simp: prefix_def)
      then have "c # s = [] @ w @ b" by simp
      then show ?thesis by blast
    next
      case 2
      then obtain a b where "s = a @ w @ b" using Cons.IH by blast
      then have "c # s = (c # a) @ w @ b" by simp
      then show ?thesis by blast
    qed
  next
    assume "\<exists>a b. c # s = a @ w @ b"
    then obtain a b where ab: "c # s = a @ w @ b" by blast
    show "occurs_in (c # s) w"
    proof (cases a)
      case Nil
      then have "prefix w (c # s)" using ab by (simp add: prefix_def)
      then show ?thesis by simp
    next
      case (Cons x a')
      then have "s = a' @ w @ b" using ab by simp
      then show ?thesis using Cons.IH by auto
    qed
  qed
qed

text \<open>A replacement string without a dollar sign stands for itself; a line feed ends every pattern.\<close>

lemma subst_no_dollar: "CHR ''$'' \<notin> set t \<Longrightarrow> subst m matched pre post caps t = t"
  by (induction t) auto

lemma subst_NL: "subst m a b c caps (NL # y) = NL # subst m a b c caps y"
  by (simp add: NL_def)

lemma subst_append_NL:
  "subst m a b c caps (x @ NL # y) = subst m a b c caps x @ NL # subst m a b c caps y"
proof (induction "length x" arbitrary: x rule: less_induct)
  case less
  show ?case
  proof (cases x)
    case Nil
    then show ?thesis by (simp add: NL_def)
  next
    case x: (Cons h t)
    show ?thesis
    proof (cases "h = CHR ''$''")
      case False
      then show ?thesis using less [of t] x by simp
    next
      case h: True
      show ?thesis
      proof (cases t)
        case Nil
        then show ?thesis using x h by (simp add: NL_def is_digit_def)
      next
        case t: (Cons d t')
        have IHt: "subst m a b c caps (t @ NL # y) = subst m a b c caps t @ NL # subst m a b c caps y"
          using less [of t] x by simp
        have IHt': "subst m a b c caps (t' @ NL # y) = subst m a b c caps t' @ NL # subst m a b c caps y"
          using less [of t'] x t by simp
        show ?thesis
        proof (cases t')
          case Nil
          then show ?thesis using x h t IHt IHt' by (simp add: NL_def is_digit_def)
        next
          case t': (Cons e t'')
          have IHt'': "subst m a b c caps (t'' @ NL # y) = subst m a b c caps t'' @ NL # subst m a b c caps y"
            using less [of t''] x t t' by simp
          show ?thesis using x h t t' IHt IHt' IHt'' by simp
        qed
      qed
    qed
  qed
qed

section \<open>The front matter of a document\<close>

lemma ms_lineRe:
  "ms lineRe n (s, caps) =
     (case dropWhile dotp s of
        [] \<Rightarrow> []
      | c # t \<Rightarrow> if c = NL then [(t, caps(1 \<mapsto> takeWhile dotp s @ [NL]))] else [])"
proof -
  have rej: "rejects dotp (Chr NL)"
    by (rule rejects_Chr') (simp add: dotp_def is_line_terminator_def)
  have a: "ms (Seq (Star Dot) (Chr NL)) n (s, caps) = ms (Chr NL) n (dropWhile dotp s, caps)"
    using ms_Star_Sym_then [OF rej, of n s caps] by (simp add: Dot_Sym)
  have b: "ms lineRe n (s, caps)
           = map (\<lambda>(s', caps'). (s', caps'(1 \<mapsto> take (length s - length s') s)))
               (ms (Chr NL) n (dropWhile dotp s, caps))"
    unfolding lineRe_def ms.simps(6) a ..
  show ?thesis
  proof (cases "dropWhile dotp s")
    case Nil
    show ?thesis unfolding b Nil by (simp add: ms_Chr)
  next
    case (Cons c t)
    have s_eq: "s = takeWhile dotp s @ c # t"
      using Cons by (metis takeWhile_dropWhile_id)
    have len: "length s - length t = Suc (length (takeWhile dotp s))"
      using arg_cong [OF s_eq, of length] by simp
    have "take (Suc (length (takeWhile dotp s))) (takeWhile dotp s @ c # t) = takeWhile dotp s @ [c]"
      by simp
    then have "take (Suc (length (takeWhile dotp s))) s = takeWhile dotp s @ [c]"
      using s_eq by simp
    then show ?thesis unfolding b Cons using len by (simp add: ms_Chr)
  qed
qed

lemma line_rest_Some: "line_rest s = Some t \<Longrightarrow> s = takeWhile dotp s @ NL # t"
proof -
  assume a: "line_rest s = Some t"
  show ?thesis
  proof (cases "dropWhile dotp s")
    case Nil
    from a have False unfolding line_rest_def Nil by simp
    then show ?thesis ..
  next
    case (Cons c t')
    from a have "c = NL" and "t' = t" unfolding line_rest_def Cons by (simp_all split: if_splits)
    then have "dropWhile dotp s = NL # t" using Cons by simp
    then show ?thesis using takeWhile_dropWhile_id [of dotp s] by simp
  qed
qed

lemma line_rest_lines:
  assumes "\<forall>x \<in> set l. dotp x"
  shows "line_rest (l @ NL # t) = Some t" and "takeWhile dotp (l @ NL # t) = l"
proof -
  have "\<not> dotp NL" by (simp add: dotp_def is_line_terminator_def)
  then show "line_rest (l @ NL # t) = Some t" and "takeWhile dotp (l @ NL # t) = l"
    using assms by (simp_all add: line_rest_def dropWhile_append takeWhile_append)
qed

lemma ms_lineRe':
  "ms lineRe n (s, caps) =
     (case line_rest s of None \<Rightarrow> [] | Some t \<Rightarrow> [(t, caps(1 \<mapsto> takeWhile dotp s @ [NL]))])"
proof (cases "dropWhile dotp s")
  case Nil
  show ?thesis unfolding ms_lineRe line_rest_def Nil by simp
next
  case (Cons c t)
  show ?thesis unfolding ms_lineRe line_rest_def Cons by simp
qed

lemma ms_Star_lineRe:
  "ms (Star lineRe) n (s, caps) =
     (case line_rest s of
        None \<Rightarrow> []
      | Some t \<Rightarrow> ms (Star lineRe) n (t, caps(1 \<mapsto> takeWhile dotp s @ [NL])))
     @ [(s, caps)]"
proof (cases "line_rest s")
  case None
  then show ?thesis by (simp add: ms.simps(3) [of lineRe] ms_lineRe')
next
  case (Some t)
  have "length t < length s"
    using arg_cong [OF line_rest_Some [OF Some], of length] by simp
  then show ?thesis using Some by (simp add: ms.simps(3) [of lineRe] ms_lineRe')
qed

lemma ms_Star_lineRe_rests:
  "(t', c') \<in> set (ms (Star lineRe) n (s, caps)) \<Longrightarrow> t' = s \<or> (\<exists>w. s = w @ NL # t')"
proof (induction "length s" arbitrary: s caps rule: less_induct)
  case less
  show ?case
  proof (cases "line_rest s")
    case None
    then show ?thesis using less.prems by (subst (asm) ms_Star_lineRe) simp
  next
    case (Some t)
    have s_eq: "s = takeWhile dotp s @ NL # t"
      by (rule line_rest_Some [OF Some])
    have lt: "length t < length s"
      using arg_cong [OF s_eq, of length] by simp
    from less.prems have "(t', c') = (s, caps)
        \<or> (t', c') \<in> set (ms (Star lineRe) n (t, caps(1 \<mapsto> takeWhile dotp s @ [NL])))"
      using Some by (subst (asm) ms_Star_lineRe) auto
    then show ?thesis
    proof
      assume "(t', c') = (s, caps)"
      then show ?thesis by simp
    next
      assume "(t', c') \<in> set (ms (Star lineRe) n (t, caps(1 \<mapsto> takeWhile dotp s @ [NL])))"
      then have "t' = t \<or> (\<exists>w. t = w @ NL # t')" using less.hyps [OF lt] by blast
      then show ?thesis
      proof
        assume "t' = t"
        then have "s = takeWhile dotp s @ NL # t'" using s_eq by simp
        then show ?thesis by blast
      next
        assume "\<exists>w. t = w @ NL # t'"
        then obtain w where "t = w @ NL # t'" by blast
        then have "s = (takeWhile dotp s @ NL # w) @ NL # t'" using s_eq by simp
        then show ?thesis by blast
      qed
    qed
  qed
qed

lemma ms_endRe:
  "ms endRe n (t, c) =
     (if prefix ''---'' t then map (\<lambda>x. (x, c)) (rev (rests nlp (drop 3 t))) else [])"
  by (simp add: endRe_def ms_Seqs_Cons ms_Seqs_Nil ms_Lit Chr_NL_Sym ms_Star_Sym comp_def
      numeral_3_eq_3)

lemma ms_endRe_hd:
  "prefix ''---'' t \<Longrightarrow> \<exists>zs. ms endRe n (t, c) = (dropWhile nlp (drop 3 t), c) # zs"
  using rev_rests [of nlp "drop 3 t"] by (auto simp: ms_endRe)

lemma ms_Star_lineRe_ex:
  "\<exists>X. ms (Star lineRe) n (s, caps) = X @ [(s, caps)]
       \<and> (\<forall>x \<in> set X. \<exists>w. s = w @ NL # fst x)"
proof (cases "line_rest s")
  case None
  then have "ms (Star lineRe) n (s, caps) = [] @ [(s, caps)]"
    by (subst ms_Star_lineRe) simp
  then show ?thesis by fastforce
next
  case (Some t)
  have s_eq: "s = takeWhile dotp s @ NL # t"
    by (rule line_rest_Some [OF Some])
  let ?c = "caps(1 \<mapsto> takeWhile dotp s @ [NL])"
  have eq: "ms (Star lineRe) n (s, caps) = ms (Star lineRe) n (t, ?c) @ [(s, caps)]"
    using Some by (subst ms_Star_lineRe) simp
  have "\<exists>w. s = w @ NL # fst x" if x: "x \<in> set (ms (Star lineRe) n (t, ?c))" for x
  proof -
    have "(fst x, snd x) \<in> set (ms (Star lineRe) n (t, ?c))" using x by simp
    then have "fst x = t \<or> (\<exists>w. t = w @ NL # fst x)" by (rule ms_Star_lineRe_rests)
    then show ?thesis
    proof
      assume "fst x = t"
      then have "s = takeWhile dotp s @ NL # fst x" using s_eq by simp
      then show ?thesis by blast
    next
      assume "\<exists>w. t = w @ NL # fst x"
      then obtain w where "t = w @ NL # fst x" by blast
      then have "s = (takeWhile dotp s @ NL # w) @ NL # fst x" using s_eq by simp
      then show ?thesis by blast
    qed
  qed
  then show ?thesis using eq by blast
qed

text \<open>
  The repetition of lines is greedy: of the ends of lines it can reach, the match takes
  the last one that is followed by \<open>---\<close>. When no later line starts with \<open>---\<close>, that is
  the end of the given lines.
\<close>

lemma star_lines_end:
  assumes "\<forall>l \<in> set ls. \<forall>x \<in> set l. dotp x"
    and "prefix ''---'' u" and "\<not> occurs_in u (NL # ''---'')"
  shows "\<exists>zs. concat (map (ms endRe n) (ms (Star lineRe) n (lines_text ls @ u, c)))
              = (dropWhile nlp (drop 3 u), last_line c ls) # zs"
  using assms(1)
proof (induction ls arbitrary: c)
  case Nil
  obtain X where X: "ms (Star lineRe) n (u, c) = X @ [(u, c)]"
    and Xw: "\<forall>x \<in> set X. \<exists>w. u = w @ NL # fst x"
    using ms_Star_lineRe_ex by blast
  have "ms endRe n x = []" if x: "x \<in> set X" for x
  proof -
    obtain w where w: "u = w @ NL # fst x" using Xw x by blast
    have "\<not> prefix ''---'' (fst x)"
    proof
      assume "prefix ''---'' (fst x)"
      then obtain b where "fst x = ''---'' @ b" by (auto simp: prefix_def)
      then have "u = w @ (NL # ''---'') @ b" using w by simp
      then show False using assms(3) occurs_in_iff by blast
    qed
    then show ?thesis using ms_endRe [of n "fst x" "snd x"] by simp
  qed
  then have "concat (map (ms endRe n) X) = []" by simp
  then have "concat (map (ms endRe n) (ms (Star lineRe) n (u, c))) = ms endRe n (u, c)"
    using X by simp
  then show ?case using ms_endRe_hd [OF assms(2), of n c] by (simp add: last_line_def)
next
  case (Cons l ls)
  have l: "\<forall>x \<in> set l. dotp x" and ls: "\<forall>l \<in> set ls. \<forall>x \<in> set l. dotp x"
    using Cons.prems by simp_all
  let ?t = "lines_text ls @ u"
  let ?c = "c(1 \<mapsto> l @ [NL])"
  have "ms (Star lineRe) n (lines_text (l # ls) @ u, c)
        = ms (Star lineRe) n (?t, ?c) @ [(lines_text (l # ls) @ u, c)]"
    using line_rest_lines [OF l, of ?t] by (subst ms_Star_lineRe) simp
  moreover obtain zs where "concat (map (ms endRe n) (ms (Star lineRe) n (?t, ?c)))
                            = (dropWhile nlp (drop 3 u), last_line ?c ls) # zs"
    using Cons.IH [OF ls] by blast
  moreover have "last_line ?c ls = last_line c (l # ls)"
    by (simp add: last_line_def)
  ultimately show ?case by simp
qed

lemma fileIntroPattern_eq:
  "fileIntroPattern = Seq Bol (Seq (Lit (''---'' @ [NL])) (Seq (Plus lineRe) endRe))"
  by (simp add: fileIntroPattern_def Seqs_def lineRe_def endRe_def)

lemma exec_at_fileIntroPattern_later:
  "length s \<noteq> n \<Longrightarrow> exec_at fileIntroPattern n s = None"
  by (simp add: exec_at_def fileIntroPattern_eq)

lemma exec_at_fileIntroPattern:
  assumes "ls \<noteq> []" and "\<forall>l \<in> set ls. \<forall>x \<in> set l. \<not> is_line_terminator x"
    and "rest = [] \<or> hd rest \<noteq> NL"
    and "\<not> occurs_in (replicate k NL @ rest) (NL # ''---'')"
    and "s = ''---'' @ [NL] @ lines_text ls @ ''---'' @ replicate k NL @ rest"
  shows "exec_at fileIntroPattern (length s) s = Some (rest, [1 \<mapsto> last ls @ [NL]])"
proof -
  let ?u = "''---'' @ replicate k NL @ rest"
  obtain l ls' where ls: "ls = l # ls'" using assms(1) by (cases ls) auto
  have dl: "\<forall>x \<in> set l. dotp x" and dls: "\<forall>l \<in> set ls'. \<forall>x \<in> set l. dotp x"
    using assms(2) ls by (simp_all add: dotp_def)
  have pu: "prefix ''---'' ?u" by simp
  have nu: "\<not> occurs_in ?u (NL # ''---'')" using assms(4) by (simp add: NL_def)
  have dw: "dropWhile nlp (drop 3 ?u) = rest"
    using assms(3) by (cases rest) (simp_all add: nlp_def dropWhile_append)
  let ?c = "Map.empty(1 \<mapsto> l @ [NL])"
  have a: "ms fileIntroPattern (length s) (s, Map.empty)
           = concat (map (ms endRe (length s)) (ms (Plus lineRe) (length s) (lines_text ls @ ?u, Map.empty)))"
    unfolding fileIntroPattern_eq by (simp add: ms_Lit assms(5))
  have b: "ms (Plus lineRe) (length s) (lines_text ls @ ?u, Map.empty)
           = ms (Star lineRe) (length s) (lines_text ls' @ ?u, ?c)"
    using line_rest_lines [OF dl, of "lines_text ls' @ ?u"] by (simp add: ms_Plus ms_lineRe' ls)
  obtain zs where "concat (map (ms endRe (length s)) (ms (Star lineRe) (length s) (lines_text ls' @ ?u, ?c)))
                  = (dropWhile nlp (drop 3 ?u), last_line ?c ls') # zs"
    using star_lines_end [OF dls pu nu] by blast
  moreover have "last_line ?c ls' = [1 \<mapsto> last ls @ [NL]]"
    by (simp add: last_line_def ls)
  ultimately show ?thesis unfolding exec_at_def a b dw by simp
qed

text \<open>
  C7, as the specification states it, fails: the pattern takes the line feeds after the
  closing \<open>---\<close> with the block. In a document with two empty lines between the front
  matter and the text \<open>b\<close>, the rewritten document has none: what followed the closing
  line is not preserved.
\<close>

theorem C7_counterexample:
  "content (updateFileIntro \<lparr>rule = r_plain, filePath = ''docs/rules/x.md'', content = doc_blank\<rparr>)
     = computed r_plain @ ''b'' @ [NL]
   \<and> \<not> suffix ([NL, NL] @ ''b'' @ [NL])
         (content (updateFileIntro \<lparr>rule = r_plain, filePath = ''docs/rules/x.md'', content = doc_blank\<rparr>))"
  by code_simp

text \<open>
  The block the pattern takes also ends at the last line of the document that starts with
  \<open>---\<close>, not at the first one after the opening: here the line \<open>b\<close> and the \<open>---\<close> after
  it are replaced with the front matter.
\<close>

lemma front_matter_greedy:
  "content (updateFileIntro \<lparr>rule = r_plain, filePath = ''docs/rules/x.md'', content = doc_dashes\<rparr>)
     = computed r_plain @ ''c'' @ [NL]"
  by code_simp

text \<open>
  A document whose lines end with a carriage return and a line feed has no front-matter
  block for the pattern, which asks for a line feed right after \<open>---\<close>: nothing is replaced
  and the front matter is put before the trimmed document.
\<close>

lemma front_matter_crlf:
  "content (updateFileIntro \<lparr>rule = r_plain, filePath = ''docs/rules/x.md'', content = doc_crlf\<rparr>)
     = computed r_plain @ ''---'' @ [CR, NL] @ ''a'' @ [CR, NL] @ ''---'' @ [NL]"
  by code_simp

text \<open>
  C7, amended. Let the document be the line \<open>---\<close> ended by a line feed, then one or more
  block lines, each ended by a line feed, none of them containing a carriage return (or a
  line feed) and none of them starting with \<open>---\<close>, then the closing \<open>---\<close>, then \<open>k\<close> line
  feeds (\<open>k\<close> may be 0) and a rest that does not start with a line feed; and let no line feed
  after the closing \<open>---\<close> be directly followed by \<open>---\<close>. Then the rewrite replaces the block
  from the opening \<open>---\<close> to the closing \<open>---\<close> together with the \<open>k\<close> line feeds that follow
  it, and the rest is preserved unchanged as the end of the document. What replaces the
  block is the computed front matter, as a replacement string.
\<close>

theorem C7_front_matter_rest:
  assumes "content d = ''---'' @ [NL] @ lines_text ls @ ''---'' @ replicate k NL @ rest"
    and "ls \<noteq> []" and "\<forall>l \<in> set ls. \<forall>x \<in> set l. \<not> is_line_terminator x"
    and "rest = [] \<or> hd rest \<noteq> NL"
    and "\<not> occurs_in (replicate k NL @ rest) (NL # ''---'')"
    and "\<forall>l \<in> set ls. \<not> prefix ''---'' l"
  shows "content (updateFileIntro d) =
           subst 1 (''---'' @ [NL] @ lines_text ls @ ''---'' @ replicate k NL) [] rest
             [1 \<mapsto> last ls @ [NL]] (computed (rule d))
           @ rest"
proof -
  let ?s = "content d"
  let ?m = "''---'' @ [NL] @ lines_text ls @ ''---'' @ replicate k NL"
  have ex: "exec_at fileIntroPattern (length ?s) ?s = Some (rest, [1 \<mapsto> last ls @ [NL]])"
    by (rule exec_at_fileIntroPattern [OF assms(2-5) assms(1)])
  have ne: "?s \<noteq> []" using assms(1) by simp
  have t: "test fileIntroPattern ?s"
    using ex ne by (cases ?s) (simp_all add: test_def)
  have sm: "?s = ?m @ rest" using assms(1) by simp
  have tk: "take (length ?s - length rest) ?s = ?m"
    by (metis add_diff_cancel_right' append_eq_conv_conj length_append sm)
  have lr: "length rest < length ?s" by (subst assms(1)) simp
  have later: "replace_all fileIntroPattern f (length ?s) pre rest = rest" for f pre
  proof (rule replace_all_no_match)
    fix t assume "suffix t rest"
    then have "length t \<le> length rest" by (rule suffix_length_le)
    then show "exec_at fileIntroPattern (length ?s) t = None"
      using lr by (intro exec_at_fileIntroPattern_later) simp
  qed
  have "replace_global fileIntroPattern f ?s = f ?m [] rest [1 \<mapsto> last ls @ [NL]] @ rest" for f
    unfolding replace_global_def
    using ne lr by (subst replace_all.simps) (simp add: ex tk later Let_def)
  then show ?thesis using t by (simp add: updateFileIntro_def Let_def)
qed

text \<open>
  The amended C7 on the document with two empty lines after the front matter: the block is
  the line \<open>a\<close>, three line feeds follow the closing \<open>---\<close>, the rest is the line \<open>b\<close>.
\<close>

theorem C7_front_matter_rest_witness:
  "content (updateFileIntro \<lparr>rule = r_plain, filePath = ''docs/rules/x.md'', content = doc_blank\<rparr>)
     = computed r_plain @ ''b'' @ [NL]"
  using C7_front_matter_rest [of "\<lparr>rule = r_plain, filePath = ''docs/rules/x.md'', content = doc_blank\<rparr>"
      "[''a'']" 3 "''b'' @ [NL]"]
  by (simp add: doc_blank_def NL_def is_line_terminator_def CR_def numeral_3_eq_3 subst_no_dollar
      computed_eq r_plain_def escape_char_def)

section \<open>The header of a document\<close>

lemma ends_ok_Seq: "ends_ok b \<Longrightarrow> ends_ok (Seq a b)"
  unfolding ends_ok_def
proof (intro allI impI)
  fix n x s' c' zs
  assume b: "\<forall>n x s' c' zs. ms b n x = (s', c') # zs \<longrightarrow> s' = [] \<or> hd s' \<noteq> NL"
    and m: "ms (Seq a b) n x = (s', c') # zs"
  obtain s c where x: "x = (s, c)" by (cases x)
  have "concat (map (ms b n) (ms a n (s, c))) = (s', c') # zs" using m x by simp
  then obtain y ws where "ms b n y = (s', c') # ws" using concat_map_hd by fastforce
  then show "s' = [] \<or> hd s' \<noteq> NL" using b by blast
qed

lemma ends_ok_Star_NL: "ends_ok (Seq (Star (Chr NL)) Eps)"
  unfolding ends_ok_def
proof (intro allI impI)
  fix n x s' c' zs
  assume m: "ms (Seq (Star (Chr NL)) Eps) n x = (s', c') # zs"
  obtain s c where x: "x = (s, c)" by (cases x)
  obtain ws where "rev (rests nlp s) = dropWhile nlp s # ws" using rev_rests by blast
  then have "s' = dropWhile nlp s"
    using m x by (simp add: Chr_NL_Sym ms_Star_Sym comp_def)
  then show "s' = [] \<or> hd s' \<noteq> NL"
    using hd_dropWhile [of nlp s] by (auto simp: nlp_def)
qed

lemma ends_ok_headerPattern: "ends_ok headerPattern"
  unfolding headerPattern_def Seqs_def by (simp add: ends_ok_Seq ends_ok_Star_NL)

lemma header_match_end:
  assumes "search headerPattern n p s = Some (pre, matched, post, caps)"
  shows "p @ s = pre @ matched @ post" and "post = [] \<or> hd post \<noteq> NL"
proof -
  have d: "p @ s = pre @ matched @ post \<and> exec_at headerPattern n (matched @ post) = Some (post, caps)"
    using assms by (rule search_decomp)
  then show "p @ s = pre @ matched @ post" by simp
  from d obtain zs where "ms headerPattern n (matched @ post, Map.empty) = (post, caps) # zs"
    by (auto simp: exec_at_def split: list.splits)
  then show "post = [] \<or> hd post \<noteq> NL"
    using ends_ok_headerPattern unfolding ends_ok_def by blast
qed

lemma join_no_dollar:
  "\<forall>x \<in> set xs. CHR ''$'' \<notin> set x \<Longrightarrow> CHR ''$'' \<notin> set sep \<Longrightarrow> CHR ''$'' \<notin> set (join sep xs)"
  by (induction sep xs rule: join.induct) auto

lemma formatItems_no_dollar:
  assumes "\<forall>x \<in> set xs. CHR ''$'' \<notin> set x"
  shows "CHR ''$'' \<notin> set (formatItems xs)"
proof -
  have "CHR ''$'' \<notin> set (join '' and '' xs)" using assms by (intro join_no_dollar) simp_all
  moreover have "CHR ''$'' \<notin> set (join '', '' (butlast xs))"
    using assms by (intro join_no_dollar) (auto dest: in_set_butlastD)
  moreover have "xs \<noteq> [] \<Longrightarrow> CHR ''$'' \<notin> set (last xs)" using assms by simp
  ultimately show ?thesis by (cases "xs = []") (auto simp: formatItems_def)
qed

lemma preset_note_no_dollar:
  assumes "\<forall>c \<in> set cats. CHR ''$'' \<notin> set c"
  shows "CHR ''$'' \<notin> set (preset_note (sort cats))"
proof -
  have "\<forall>x \<in> set (presets (sort cats)). CHR ''$'' \<notin> set x"
    using assms by (auto simp: presets_def)
  then show ?thesis using formatItems_no_dollar by (simp add: preset_note_def)
qed

lemma fix_note_no_dollar: "CHR ''$'' \<notin> set fix_note"
  by (simp add: fix_note_def)

lemma trim_hd: "trim s = [] \<or> \<not> is_space (hd (trim s))"
proof -
  define u where "u = dropWhile is_space s"
  define v where "v = dropWhile is_space (rev u)"
  have t: "trim s = rev v" by (simp add: trim_def u_def v_def)
  have "rev u = takeWhile is_space (rev u) @ v" by (simp add: v_def)
  then have uv: "u = rev v @ rev (takeWhile is_space (rev u))"
    by (metis rev_append rev_rev_ident)
  show ?thesis
  proof (cases "v = []")
    case True
    then show ?thesis using t by simp
  next
    case False
    then have "hd u = hd (rev v)" using uv by (metis hd_append2 rev_is_Nil_conv)
    moreover have "u \<noteq> []" using uv False by auto
    then have "\<not> is_space (hd u)" unfolding u_def by (rule hd_dropWhile)
    ultimately show ?thesis using t by simp
  qed
qed

lemma header_fixable_presets:
  assumes "\<not> deprecated r" and "fixable r" and "categories (docs r) = Some cats"
  shows "header r = title r @ [NL, NL] @ preset_note (sort cats) @ [NL] @ fix_note @ [NL, NL]"
  using assms by (simp add: header_def header_notes_def)

lemma fix_note_last: "fixable r \<Longrightarrow> \<exists>ns. header_notes r = ns @ [fix_note, [], []]"
  by (simp add: header_notes_def Let_def split: option.splits)

lemma header_subst_no_dollar:
  assumes "\<not> deprecated r" and "fixable r" and "categories (docs r) = Some cats"
    and "\<forall>c \<in> set cats. CHR ''$'' \<notin> set c"
  shows "subst 0 m p q c (header r)
         = subst 0 m p q c (title r) @ [NL, NL] @ preset_note (sort cats) @ [NL] @ fix_note @ [NL, NL]"
proof -
  let ?P = "preset_note (sort cats)"
  have h: "header r = title r @ [NL, NL] @ ?P @ [NL] @ fix_note @ [NL, NL]"
    using assms(1-3) by (rule header_fixable_presets)
  have "subst 0 m p q c (header r)
        = subst 0 m p q c (title r) @ NL # NL # subst 0 m p q c ?P @ NL # subst 0 m p q c fix_note
          @ NL # NL # subst 0 m p q c []"
    unfolding h by (simp add: subst_append_NL subst_NL del: subst.simps(2))
  then show ?thesis
    using preset_note_no_dollar [OF assms(4)] fix_note_no_dollar by (simp add: subst_no_dollar)
qed

text \<open>
  When the pattern finds a header, the document is the text before the match, the match
  and the text after it; the text after it does not start with a line feed, and the
  rewritten document is the text before, the header as a replacement string, and the text
  after.
\<close>

lemma header_replaced:
  assumes "search headerPattern (length (content d)) [] (content d) = Some (pre, matched, post, caps)"
  shows "content d = pre @ matched @ post"
    and "post = [] \<or> hd post \<noteq> NL"
    and "content (updateHeader d) = pre @ subst 0 matched pre post caps (header (rule d)) @ post"
proof -
  show "content d = pre @ matched @ post" and "post = [] \<or> hd post \<noteq> NL"
    using header_match_end [OF assms] by simp_all
  show "content (updateHeader d) = pre @ subst 0 matched pre post caps (header (rule d)) @ post"
    using assms by (simp add: updateHeader_def Let_def replace_first_def test_def)
qed

text \<open>
  When the pattern finds no header, the header is written as it is, before the trimmed
  document, which does not start with a line feed.
\<close>

lemma header_inserted:
  assumes "search headerPattern (length (content d)) [] (content d) = None"
  shows "content (updateHeader d) = header (rule d) @ trim (content d) @ [NL]"
    and "trim (content d) = [] \<or> hd (trim (content d)) \<noteq> NL"
proof -
  show "content (updateHeader d) = header (rule d) @ trim (content d) @ [NL]"
    using assms by (simp add: updateHeader_def Let_def test_def)
  have "is_space NL" by (simp add: is_space_def NL_def)
  then show "trim (content d) = [] \<or> hd (trim (content d)) \<noteq> NL"
    using trim_hd [of "content d"] by auto
qed

text \<open>
  For a rule that is not deprecated, is fixable and has a list of presets with no dollar
  sign in a name, the rewritten document holds the note of the sorted presets, a line
  feed, the fix note and two line feeds, directly before the text that followed the match
  of the header pattern.
\<close>

lemma header_notes_before_rest:
  assumes "search headerPattern (length (content d)) [] (content d) = Some (pre, matched, post, caps)"
    and "\<not> deprecated (rule d)" and "fixable (rule d)"
    and "categories (docs (rule d)) = Some cats"
    and "\<forall>c \<in> set cats. CHR ''$'' \<notin> set c"
  shows "content (updateHeader d)
         = pre @ subst 0 matched pre post caps (title (rule d)) @ [NL, NL]
           @ preset_note (sort cats) @ [NL] @ fix_note @ [NL, NL] @ post"
  using header_replaced(3) [OF assms(1)] header_subst_no_dollar [OF assms(2-5)] by simp

lemma sort_example: "sort [''strict'', ''recommended''] = [''recommended'', ''strict'']"
  by simp

text \<open>The header of the presets \<open>strict\<close> and \<open>recommended\<close> in a document with a header.\<close>

lemma header_notes_example:
  "content (updateHeader \<lparr>rule = r_fixable, filePath = ''docs/rules/x.md'', content = doc_header\<rparr>)
     = title r_fixable @ [NL, NL] @ preset_note [''recommended'', ''strict''] @ [NL] @ fix_note
       @ [NL, NL] @ ''## Options'' @ [NL]"
  by code_simp

text \<open>
  C4 fails on the code when the document already has a header: the new header is put in
  with \<^verbatim>\<open>String.prototype.replace\<close> and a replacement string, in which \<open>$$\<close> stands for
  one dollar sign. For a fixable rule of the preset \<open>$$\<close> the note written names the preset
  \<open>$\<close>: the note of the rule's preset is not in the rewritten document. When the document
  has no header, the same header is written as it is, with the note of the preset \<open>$$\<close>.
\<close>

theorem C4_dollar_in_preset_name:
  "categories (docs r_dollar_preset) = Some [''$$'']
   \<and> content (updateHeader \<lparr>rule = r_dollar_preset, filePath = ''docs/rules/x.md'', content = doc_header\<rparr>)
     = ''# yml/x'' @ [NL, NL] @ ''> d'' @ [NL, NL]
       @ ''- :gear: This rule is included in '' @ [CHR 0x60, CHR 0x22] @ ''plugin:yml/$''
       @ [CHR 0x22, CHR 0x60] @ ''.'' @ [NL] @ fix_note @ [NL, NL] @ ''## Options'' @ [NL]
   \<and> \<not> occurs_in
         (content (updateHeader \<lparr>rule = r_dollar_preset, filePath = ''docs/rules/x.md'', content = doc_header\<rparr>))
         (preset_note (sort [''$$'']))
   \<and> content (updateHeader \<lparr>rule = r_dollar_preset, filePath = ''docs/rules/x.md'', content = ''Options'' @ [NL]\<rparr>)
     = ''# yml/x'' @ [NL, NL] @ ''> d'' @ [NL, NL] @ preset_note [''$$''] @ [NL] @ fix_note @ [NL, NL]
       @ ''Options'' @ [NL]"
  by code_simp

section \<open>The attributes of the example code blocks\<close>

lemma exec_at_first: "exec_at r n s = first (ms r n (s, Map.empty))"
  by (simp add: exec_at_def first_def)

lemma first_append: "first (xs @ ys) = (case first xs of Some m \<Rightarrow> Some m | None \<Rightarrow> first ys)"
  by (cases xs) (simp_all add: first_def)

lemma first_simps [simp]: "first [] = None" "first (x # xs) = Some x"
  by (simp_all add: first_def)

lemma tag_body_Some: "tag_body s = Some (x, r) \<Longrightarrow> s = x @ CHR ''>'' # r \<and> (\<forall>c \<in> set x. dotp c \<and> c \<noteq> CHR ''>'')"
  by (induction s arbitrary: x) (auto split: if_splits)

lemma rests_length: "t \<in> set (rests p u) \<Longrightarrow> length t \<le> length u"
  by (induction u) (auto split: if_splits)

lemma lazy_body:
  "first (concat (map (\<lambda>t'. ms (Chr CHR ''>'') n (t', c(1 \<mapsto> pre @ take (length u - length t') u)))
                      (rests dotp u)))
   = map_option (\<lambda>(x, r). (r, c(1 \<mapsto> pre @ x))) (tag_body u)"
proof (induction u arbitrary: pre)
  case Nil
  show ?case by (simp add: ms_Chr)
next
  case (Cons a u)
  let ?g = "\<lambda>v t'. ms (Chr CHR ''>'') n (t', c(1 \<mapsto> pre @ take (length v - length t') v))"
  have hd_eq: "?g (a # u) (a # u) = (if a = CHR ''>'' then [(u, c(1 \<mapsto> pre))] else [])"
    by (simp add: ms_Chr)
  have tl_eq: "map (?g (a # u)) (rests dotp u)
            = map (\<lambda>t'. ms (Chr CHR ''>'') n (t', c(1 \<mapsto> (pre @ [a]) @ take (length u - length t') u)))
                (rests dotp u)"
  proof (rule map_cong [OF refl])
    fix t' assume "t' \<in> set (rests dotp u)"
    then have "length t' \<le> length u" by (rule rests_length)
    then have "take (length (a # u) - length t') (a # u) = a # take (length u - length t') u"
      by (simp add: Suc_diff_le)
    then show "?g (a # u) t'
               = ms (Chr CHR ''>'') n (t', c(1 \<mapsto> (pre @ [a]) @ take (length u - length t') u))"
      by simp
  qed
  have "first (concat (map (?g (a # u)) (rests dotp (a # u))))
        = (if a = CHR ''>'' then Some (u, c(1 \<mapsto> pre))
           else if dotp a then first (concat (map (?g (a # u)) (rests dotp u))) else None)"
    unfolding rests.simps list.map concat.simps first_append hd_eq by simp
  also have "\<dots> = map_option (\<lambda>(x, r). (r, c(1 \<mapsto> pre @ x))) (tag_body (a # u))"
    unfolding tl_eq Cons.IH [of "pre @ [a]"]
    by (simp add: option.map_comp comp_def case_prod_unfold)
  finally show ?case .
qed

lemma ms_Seq': "ms (Seq a b) n x = concat (map (ms b n) (ms a n x))"
  by (cases x) simp

lemma ms_Eps': "ms Eps n x = [x]"
  by (cases x) simp

lemma ms_Seq_Eps: "ms (Seq a Eps) n = ms a n"
proof (rule ext)
  fix x
  have "(\<lambda>y. ms Eps n y) = (\<lambda>y. [y])" by (rule ext) (rule ms_Eps')
  then show "ms (Seq a Eps) n x = ms a n x" by (simp add: ms_Seq')
qed

lemma codeBlockPattern_eq:
  "codeBlockPattern = Seq (Lit tagOpen) (Seq (Group 1 (LazyStar Dot)) (Seq (Chr CHR ''>'') Eps))"
  by (simp add: codeBlockPattern_def Seqs_def tagOpen_def)

lemma exec_at_codeBlockPattern:
  "exec_at codeBlockPattern n s = map_option (\<lambda>(x, r). (r, [1 \<mapsto> x])) (tag_at s)"
proof (cases "prefix tagOpen s")
  case False
  then show ?thesis
    by (simp add: exec_at_def codeBlockPattern_eq ms_Lit tag_at_def)
next
  case True
  let ?u = "drop (length tagOpen) s"
  have "ms codeBlockPattern n (s, Map.empty)
        = concat (map (ms (Chr CHR ''>'') n) (ms (Group 1 (LazyStar Dot)) n (?u, Map.empty)))"
    using True unfolding codeBlockPattern_eq by (simp add: ms_Seq' ms_Lit ms_Seq_Eps)
  also have "\<dots> = concat (map (\<lambda>t'. ms (Chr CHR ''>'') n (t', Map.empty(1 \<mapsto> [] @ take (length ?u - length t') ?u)))
                      (rests dotp ?u))"
    unfolding ms.simps(6) Dot_Sym ms_LazyStar_Sym by (simp add: comp_def)
  finally show ?thesis
    using True lazy_body [of n Map.empty "[]" ?u] by (simp add: exec_at_first tag_at_def)
qed

lemma exec_at_spacesPattern:
  "exec_at spacesPattern n s
   = (if s \<noteq> [] \<and> is_space (hd s) then Some (dropWhile is_space s, Map.empty) else None)"
proof (cases s)
  case Nil
  then show ?thesis by (simp add: exec_at_def spacesPattern_def ms_Plus Space_def)
next
  case (Cons a t)
  show ?thesis
  proof (cases "is_space a")
    case True
    obtain zs where "rev (rests is_space t) = dropWhile is_space t # zs" using rev_rests by blast
    then show ?thesis using True Cons
      by (simp add: exec_at_def spacesPattern_def ms_Plus Space_def ms_Star_Sym)
  next
    case False
    then show ?thesis using Cons by (simp add: exec_at_def spacesPattern_def ms_Plus Space_def)
  qed
qed

lemma wds_dropWhile: "wds [] (dropWhile is_space s) = wds [] s"
  by (induction s) simp_all

lemma split_loop_wds:
  "r = spacesPattern \<Longrightarrow> filter (\<lambda>w. w \<noteq> []) (split_loop r n cur s) = wds cur s"
proof (induction r n cur s rule: split_loop.induct)
  case (1 r n cur)
  show ?case by simp
next
  case (2 r n cur c cs)
  note r = \<open>r = spacesPattern\<close>
  show ?case
  proof (cases "is_space c")
    case True
    have ex: "exec_at spacesPattern n (c # cs) = Some (dropWhile is_space cs, Map.empty)"
      using True by (simp add: exec_at_spacesPattern)
    have lt: "length (dropWhile is_space cs) \<noteq> length (c # cs)"
      using length_dropWhile_le [of is_space cs] by simp
    have "filter (\<lambda>w. w \<noteq> []) (split_loop spacesPattern n [] (dropWhile is_space cs))
          = wds [] (dropWhile is_space cs)"
      using "2.IH"(3) [unfolded r, OF ex refl _ refl] lt by simp
    then show ?thesis using True ex lt by (simp add: wds_dropWhile r)
  next
    case False
    have ex: "exec_at spacesPattern n (c # cs) = None"
      using False by (simp add: exec_at_spacesPattern)
    show ?thesis using False ex "2.IH"(1) [unfolded r, OF ex refl] by (simp add: r)
  qed
qed

lemma split_loop_nospace:
  "r = spacesPattern \<Longrightarrow> \<forall>c \<in> set cur. \<not> is_space c \<Longrightarrow>
   \<forall>w \<in> set (split_loop r n cur s). \<forall>c \<in> set w. \<not> is_space c"
proof (induction r n cur s rule: split_loop.induct)
  case (1 r n cur)
  then show ?case by simp
next
  case (2 r n cur c cs)
  have r: "r = spacesPattern" by fact
  have cur: "\<forall>c \<in> set cur. \<not> is_space c" by fact
  show ?case
  proof (cases "is_space c")
    case True
    have ex: "exec_at r n (c # cs) = Some (dropWhile is_space cs, Map.empty)"
      using True by (simp add: exec_at_spacesPattern r)
    have lt0: "length (dropWhile is_space cs) \<noteq> length (c # cs)"
      using length_dropWhile_le [of is_space cs] by simp
    have lt: "\<not> (cur = [] \<and> length (dropWhile is_space cs) = length (c # cs))"
      using lt0 by simp
    have step: "split_loop r n cur (c # cs) = cur # split_loop r n [] (dropWhile is_space cs)"
      using ex lt0 by simp
    have "\<forall>w \<in> set (split_loop r n [] (dropWhile is_space cs)). \<forall>c \<in> set w. \<not> is_space c"
      using "2.IH"(3) [OF ex refl lt r] by simp
    then show ?thesis unfolding step using cur by simp
  next
    case False
    have ex: "exec_at r n (c # cs) = None"
      using False by (simp add: exec_at_spacesPattern r)
    have step: "split_loop r n cur (c # cs) = split_loop r n (cur @ [c]) cs"
      using ex by simp
    have "\<forall>c' \<in> set (cur @ [c]). \<not> is_space c'" using cur False by simp
    then show ?thesis unfolding step using "2.IH"(1) [OF ex r] by blast
  qed
qed

lemma dropWhile_hd: "xs = [] \<or> \<not> P (hd xs) \<Longrightarrow> dropWhile P xs = xs"
  by (cases xs) auto

lemma trim_nospace: "\<forall>c \<in> set w. \<not> is_space c \<Longrightarrow> trim w = w"
proof -
  assume a: "\<forall>c \<in> set w. \<not> is_space c"
  have 1: "dropWhile is_space w = w" using a by (cases w) auto
  have "rev w = [] \<or> \<not> is_space (hd (rev w))"
  proof (cases "rev w")
    case Nil
    then show ?thesis by simp
  next
    case (Cons b t)
    then have "b \<in> set (rev w)" by simp
    then have "\<not> is_space b" using a by simp
    then show ?thesis using Cons by simp
  qed
  then have 2: "dropWhile is_space (rev w) = rev w" by (rule dropWhile_hd)
  show ?thesis unfolding trim_def 1 2 by simp
qed

lemma attribute_words:
  "filter (\<lambda>s. s \<noteq> [] \<and> s \<noteq> ''fix'') (map trim (split spacesPattern x))
   = filter (\<lambda>s. s \<noteq> ''fix'') (wds [] x)"
proof -
  let ?ps = "split spacesPattern x"
  have ns: "\<forall>w \<in> set ?ps. \<forall>c \<in> set w. \<not> is_space c"
    using split_loop_nospace [OF refl, of "[]" "length x" x] by (simp add: split_def exec_at_spacesPattern)
  then have "map trim ?ps = ?ps" by (simp add: trim_nospace map_idI)
  moreover have "filter (\<lambda>w. w \<noteq> []) ?ps = wds [] x"
    using split_loop_wds [OF refl, of "length x" "[]" x] by (simp add: split_def exec_at_spacesPattern)
  moreover have "filter (\<lambda>s. s \<noteq> [] \<and> s \<noteq> ''fix'') ?ps
                 = filter (\<lambda>s. s \<noteq> ''fix'') (filter (\<lambda>w. w \<noteq> []) ?ps)"
    by (simp add: conj_commute)
  ultimately show ?thesis by simp
qed

lemma join_Cons: "join sep (a # ws) = a @ concat (map (\<lambda>w. sep @ w) ws)"
  by (induction ws arbitrary: a) simp_all

lemma codeBlockTag_eq:
  "codeBlockTag fix x = tagOpen @ concat (map (\<lambda>w. '' '' @ w) (tag_words fix x)) @ ''>''"
  by (simp add: codeBlockTag_def attribute_words join_Cons tag_words_def tagOpen_def Let_def)

lemma wds_words:
  "\<forall>c \<in> set cur. \<not> is_space c \<Longrightarrow> w \<in> set (wds cur s) \<Longrightarrow>
   w \<noteq> [] \<and> (\<forall>c \<in> set w. \<not> is_space c) \<and> set w \<subseteq> set cur \<union> set s"
proof (induction cur s rule: wds.induct)
  case (1 cur)
  then show ?case by (auto split: if_splits)
next
  case (2 cur c cs)
  show ?case
  proof (cases "is_space c")
    case True
    then have "w = cur \<and> cur \<noteq> [] \<or> w \<in> set (wds [] cs)"
      using "2.prems"(2) by (auto split: if_splits)
    then show ?thesis
    proof
      assume "w = cur \<and> cur \<noteq> []"
      then show ?thesis using "2.prems"(1) by auto
    next
      assume w: "w \<in> set (wds [] cs)"
      have "w \<noteq> [] \<and> (\<forall>c \<in> set w. \<not> is_space c) \<and> set w \<subseteq> set [] \<union> set cs"
      proof (cases "cur = []")
        case True
        show ?thesis using "2.IH"(1) [OF \<open>is_space c\<close> True _ w] by simp
      next
        case False
        show ?thesis using "2.IH"(2) [OF \<open>is_space c\<close> False _ w] by simp
      qed
      then show ?thesis by auto
    qed
  next
    case False
    then have w: "w \<in> set (wds (cur @ [c]) cs)" using "2.prems"(2) by simp
    have "\<forall>c' \<in> set (cur @ [c]). \<not> is_space c'" using "2.prems"(1) False by simp
    then have "w \<noteq> [] \<and> (\<forall>c \<in> set w. \<not> is_space c) \<and> set w \<subseteq> set (cur @ [c]) \<union> set cs"
      using "2.IH"(3) [OF False _ w] by blast
    then show ?thesis by auto
  qed
qed

lemma wds_append: "\<forall>c \<in> set w. \<not> is_space c \<Longrightarrow> wds cur (w @ s) = wds (cur @ w) s"
  by (induction w arbitrary: cur) simp_all

lemma wds_word:
  "w \<noteq> [] \<Longrightarrow> s = [] \<or> is_space (hd s) \<Longrightarrow> wds w s = w # wds [] s"
  by (cases s) simp_all

lemma wds_joined:
  "\<forall>w \<in> set ws. w \<noteq> [] \<and> (\<forall>c \<in> set w. \<not> is_space c) \<Longrightarrow>
   wds [] (concat (map (\<lambda>w. '' '' @ w) ws)) = ws"
proof (induction ws)
  case Nil
  show ?case by simp
next
  case (Cons w ws)
  let ?rest = "concat (map (\<lambda>w. '' '' @ w) ws)"
  have sp: "is_space CHR '' ''" by (simp add: is_space_def)
  have w: "w \<noteq> []" "\<forall>c \<in> set w. \<not> is_space c" using Cons.prems by simp_all
  have r: "?rest = [] \<or> is_space (hd ?rest)" using sp by (cases ws) simp_all
  have "wds [] (concat (map (\<lambda>w. '' '' @ w) (w # ws))) = wds [] (w @ ?rest)"
    using sp by simp
  also have "\<dots> = wds w ?rest" using wds_append [OF w(2), of "[]"] by simp
  also have "\<dots> = w # wds [] ?rest" using wds_word [OF w(1) r] .
  also have "\<dots> = w # ws" using Cons by simp
  finally show ?case .
qed

lemma tag_body_append:
  "\<forall>c \<in> set w. dotp c \<and> c \<noteq> CHR ''>'' \<Longrightarrow>
   tag_body (w @ s) = map_option (\<lambda>(x, r). (w @ x, r)) (tag_body s)"
proof (induction w)
  case Nil
  show ?case by (simp add: option.map_ident)
next
  case (Cons a w)
  then show ?case by (simp add: option.map_comp comp_def case_prod_unfold)
qed

lemma tagOpen_chars: "\<forall>c \<in> set tagOpen. dotp c \<and> c \<noteq> CHR ''>''"
  by (simp add: tagOpen_def dotp_def is_line_terminator_def NL_def CR_def)

lemma tagOpen_Cons: "tagOpen = CHR ''<'' # tagRest" and tagOpen_tl: "CHR ''<'' \<notin> set tagRest"
  by (simp_all add: tagOpen_def tagRest_def)

lemma space_not_dot: "\<not> is_space c \<Longrightarrow> dotp c"
  by (auto simp: is_space_def dotp_def is_line_terminator_def NL_def CR_def)

text \<open>The tag the replacer writes is read back as itself.\<close>

lemma tag_words_chars:
  assumes "\<forall>c \<in> set x. dotp c \<and> c \<noteq> CHR ''>''" and "w \<in> set (tag_words fix x)"
  shows "w \<noteq> [] \<and> (\<forall>c \<in> set w. \<not> is_space c \<and> dotp c \<and> c \<noteq> CHR ''>'')"
proof (cases "w = ''fix''")
  case True
  then show ?thesis by (simp add: is_space_def dotp_def is_line_terminator_def NL_def CR_def)
next
  case False
  then have "w \<in> set (wds [] x)" using assms(2) by (auto simp: tag_words_def split: if_splits)
  then have "w \<noteq> [] \<and> (\<forall>c \<in> set w. \<not> is_space c) \<and> set w \<subseteq> set [] \<union> set x"
    by (intro wds_words) simp_all
  then show ?thesis using assms(1) by auto
qed

lemma tag_words_again:
  assumes "\<forall>c \<in> set x. dotp c \<and> c \<noteq> CHR ''>''"
  shows "tag_words fix (concat (map (\<lambda>w. '' '' @ w) (tag_words fix x))) = tag_words fix x"
proof -
  have "wds [] (concat (map (\<lambda>w. '' '' @ w) (tag_words fix x))) = tag_words fix x"
    using tag_words_chars [OF assms] by (intro wds_joined) blast
  then show ?thesis by (simp add: tag_words_def)
qed

lemma tag_at_written:
  assumes "\<forall>c \<in> set x. dotp c \<and> c \<noteq> CHR ''>''"
  shows "tag_at (codeBlockTag fix x @ u)
         = Some (concat (map (\<lambda>w. '' '' @ w) (tag_words fix x)), u)"
proof -
  let ?y = "concat (map (\<lambda>w. '' '' @ w) (tag_words fix x))"
  have "\<forall>c \<in> set ?y. dotp c \<and> c \<noteq> CHR ''>''"
    using tag_words_chars [OF assms] by (auto simp: dotp_def is_line_terminator_def NL_def CR_def)
  then have "tag_body (?y @ CHR ''>'' # u) = Some (?y, u)"
    by (simp add: tag_body_append)
  then show ?thesis by (simp add: tag_at_def codeBlockTag_eq)
qed

lemma tag_at_length: "tag_at s = Some (x, r) \<Longrightarrow> length r < length s"
proof -
  assume a: "tag_at s = Some (x, r)"
  then have p: "prefix tagOpen s" and b: "tag_body (drop (length tagOpen) s) = Some (x, r)"
    by (auto simp: tag_at_def split: if_splits)
  have "drop (length tagOpen) s = x @ CHR ''>'' # r" using tag_body_Some [OF b] by simp
  then have "length (drop (length tagOpen) s) = length x + Suc (length r)" by simp
  then show ?thesis by simp
qed

text \<open>The rewrite of the tags, as a function of the text alone.\<close>

function tags :: "bool \<Rightarrow> string \<Rightarrow> string" where
  "tags fix s =
     (case tag_at s of
        Some (x, r) \<Rightarrow> codeBlockTag fix x @ tags fix r
      | None \<Rightarrow> (case s of [] \<Rightarrow> [] | c # cs \<Rightarrow> c # tags fix cs))"
  by pat_completeness auto

termination
  by (relation "measure (\<lambda>(fix, s). length s)") (auto dest: tag_at_length)

declare tags.simps [simp del]

lemma replace_all_tags:
  "replace_all codeBlockPattern (\<lambda>matched pre post caps. codeBlockTag fix (capture_text caps 1)) n pre s
   = tags fix s"
proof (induction "length s" arbitrary: s pre rule: less_induct)
  case less
  let ?f = "\<lambda>matched pre post caps. codeBlockTag fix (capture_text caps 1)"
  show ?case
  proof (cases "tag_at s")
    case None
    then have ex: "exec_at codeBlockPattern n s = None" by (simp add: exec_at_codeBlockPattern)
    show ?thesis
    proof (cases s)
      case Nil
      then show ?thesis using ex None by (simp add: replace_all.simps [of _ _ _ _ "[]"] tags.simps [of _ "[]"])
    next
      case (Cons c cs)
      have "replace_all codeBlockPattern ?f n (pre @ [c]) cs = tags fix cs"
        using less [of cs] Cons by simp
      then show ?thesis using ex None Cons
        by (simp add: replace_all.simps [of _ _ _ _ "c # cs"] tags.simps [of _ "c # cs"])
    qed
  next
    case (Some m)
    obtain x r where m: "m = (x, r)" by (cases m)
    have lt: "length r < length s" using Some m by (auto dest: tag_at_length)
    have ex: "exec_at codeBlockPattern n s = Some (r, [1 \<mapsto> x])"
      using Some m by (simp add: exec_at_codeBlockPattern)
    have ne: "take (length s - length r) s \<noteq> []" using lt by auto
    have "replace_all codeBlockPattern ?f n (pre @ take (length s - length r) s) r = tags fix r"
      using less [OF lt] by simp
    then show ?thesis using ex ne Some m
      by (simp add: replace_all.simps [of _ _ _ _ s] tags.simps [of _ s] capture_text_def Let_def)
  qed
qed

lemma updateCodeBlocks_tags:
  "content (updateCodeBlocks d) = tags (fixable (rule d)) (content d)"
  by (simp only: updateCodeBlocks_def replace_global_def replace_all_tags) simp

lemma tag_at_not_lt: "c \<noteq> CHR ''<'' \<Longrightarrow> tag_at (c # cs) = None"
  by (simp add: tag_at_def tagOpen_Cons)

lemma tags_Cons_other: "c \<noteq> CHR ''<'' \<Longrightarrow> tags fix (c # cs) = c # tags fix cs"
  by (simp add: tags.simps [of _ "c # cs"] tag_at_not_lt)

lemma tags_append_other: "CHR ''<'' \<notin> set u \<Longrightarrow> tags fix (u @ s) = u @ tags fix s"
  by (induction u) (auto simp: tags_Cons_other)

lemma tags_head_lt: "\<exists>t. tags fix (CHR ''<'' # cs) = CHR ''<'' # t"
proof (cases "tag_at (CHR ''<'' # cs)")
  case None
  then show ?thesis by (simp add: tags.simps [of _ "_ # _"])
next
  case (Some m)
  then show ?thesis
    by (cases m) (simp add: tags.simps [of _ "_ # _"] codeBlockTag_eq tagOpen_def)
qed

lemma tags_prefix_other:
  "CHR ''<'' \<notin> set w \<Longrightarrow> prefix w (tags fix s) \<Longrightarrow> prefix w s"
proof (induction w arbitrary: s)
  case Nil
  show ?case by simp
next
  case (Cons a w)
  have a: "a \<noteq> CHR ''<''" and w: "CHR ''<'' \<notin> set w" using Cons.prems(1) by auto
  show ?case
  proof (cases s)
    case Nil
    then show ?thesis using Cons.prems(2) by (simp add: tags.simps [of _ "[]"] tag_at_def tagOpen_def)
  next
    case s: (Cons c cs)
    show ?thesis
    proof (cases "c = CHR ''<''")
      case True
      then obtain t where "tags fix s = CHR ''<'' # t" using tags_head_lt s by blast
      then show ?thesis using Cons.prems(2) a by simp
    next
      case False
      then have "tags fix s = c # tags fix cs" using s by (simp add: tags_Cons_other)
      then show ?thesis using Cons.prems(2) Cons.IH [OF w, of cs] s by simp
    qed
  qed
qed

lemma tag_body_tags: "tag_body z = None \<Longrightarrow> tag_body (tags fix z) = None"
proof (induction z)
  case Nil
  show ?case by (simp add: tags.simps [of _ "[]"] tag_at_def tagOpen_def)
next
  case (Cons a z)
  have gt: "a \<noteq> CHR ''>''" using Cons.prems by (auto split: if_splits)
  show ?case
  proof (cases "dotp a")
    case False
    then have "a \<noteq> CHR ''<''" by (auto simp: dotp_def is_line_terminator_def NL_def CR_def)
    then show ?thesis using False gt by (simp add: tags_Cons_other)
  next
    case True
    have z: "tag_body z = None" using Cons.prems True gt by simp
    have "tag_at (a # z) = None"
    proof (cases "prefix tagOpen (a # z)")
      case False
      then show ?thesis by (simp add: tag_at_def)
    next
      case p: True
      then obtain z2 where z2: "a # z = tagOpen @ z2" by (auto simp: prefix_def)
      have "tag_body (a # z) = None" using Cons.prems .
      then have "tag_body z2 = None" unfolding z2 using tag_body_append [OF tagOpen_chars, of z2] by simp
      then show ?thesis using p z2 by (simp add: tag_at_def)
    qed
    then have "tags fix (a # z) = a # tags fix z" by (simp add: tags.simps [of _ "a # z"])
    then show ?thesis using True gt Cons.IH [OF z] by simp
  qed
qed

lemma tag_at_tagOpen: "tag_at (tagOpen @ z) = tag_body z"
  by (simp add: tag_at_def)

lemma tag_at_Some_prefix: "tag_at s \<noteq> None \<Longrightarrow> \<exists>z. s = tagOpen @ z"
  by (auto simp: tag_at_def prefix_def split: if_splits)

lemma tag_at_tags: "tag_at (c # cs) = None \<Longrightarrow> tag_at (c # tags fix cs) = None"
proof (rule ccontr)
  assume n: "tag_at (c # cs) = None" and nn: "tag_at (c # tags fix cs) \<noteq> None"
  obtain y where y: "c # tags fix cs = tagOpen @ y" using tag_at_Some_prefix [OF nn] by blast
  then have "c # tags fix cs = CHR ''<'' # tagRest @ y" by (simp only: tagOpen_Cons append_Cons)
  then have c: "c = CHR ''<''" and t: "tags fix cs = tagRest @ y" by simp_all
  have "prefix tagRest (tags fix cs)" unfolding t by simp
  then have "prefix tagRest cs" by (rule tags_prefix_other [OF tagOpen_tl])
  then obtain z where z: "cs = tagRest @ z" by (auto simp: prefix_def)
  have "tags fix cs = tagRest @ tags fix z"
    unfolding z using tagOpen_tl by (rule tags_append_other)
  then have yz: "y = tags fix z" using t by simp
  have ccs: "c # cs = tagOpen @ z" unfolding c z by (simp only: tagOpen_Cons append_Cons)
  have "tag_body y \<noteq> None" using nn unfolding y tag_at_tagOpen .
  then have tz: "tag_body (tags fix z) \<noteq> None" unfolding yz .
  have "tag_body z \<noteq> None"
  proof
    assume "tag_body z = None"
    then have "tag_body (tags fix z) = None" by (rule tag_body_tags)
    then show False using tz by simp
  qed
  then have "tag_at (c # cs) \<noteq> None" unfolding ccs tag_at_tagOpen .
  then show False using n by simp
qed

lemma tags_idem: "tags fix (tags fix s) = tags fix s"
proof (induction "length s" arbitrary: s rule: less_induct)
  case less
  show ?case
  proof (cases "tag_at s")
    case None
    show ?thesis
    proof (cases s)
      case Nil
      then show ?thesis using None by (simp add: tags.simps [of _ "[]"])
    next
      case (Cons c cs)
      have 1: "tags fix s = c # tags fix cs" using None Cons by (simp add: tags.simps [of _ "c # cs"])
      have "tag_at (c # tags fix cs) = None" using None Cons tag_at_tags by simp
      then have "tags fix (c # tags fix cs) = c # tags fix (tags fix cs)"
        by (simp add: tags.simps [of _ "c # _"])
      then show ?thesis using 1 less [of cs] Cons by simp
    qed
  next
    case (Some m)
    obtain x r where m: "m = (x, r)" by (cases m)
    have lt: "length r < length s" using Some m by (auto dest: tag_at_length)
    have 1: "tags fix s = codeBlockTag fix x @ tags fix r"
      using Some m by (simp add: tags.simps [of _ s])
    have xs: "\<forall>c \<in> set x. dotp c \<and> c \<noteq> CHR ''>''"
      using Some m tag_body_Some by (auto simp: tag_at_def split: if_splits)
    let ?y = "concat (map (\<lambda>w. '' '' @ w) (tag_words fix x))"
    have 2: "tag_at (codeBlockTag fix x @ tags fix r) = Some (?y, tags fix r)"
      using xs by (rule tag_at_written)
    have 3: "codeBlockTag fix ?y = codeBlockTag fix x"
      using tag_words_again [OF xs] by (simp add: codeBlockTag_eq)
    have "tags fix (codeBlockTag fix x @ tags fix r) = codeBlockTag fix ?y @ tags fix (tags fix r)"
      using 2 by (simp add: tags.simps [of _ "codeBlockTag fix x @ tags fix r"])
    then show ?thesis using 1 3 less [OF lt] by simp
  qed
qed

text \<open>
  C6: the normalization of the attributes is idempotent. For every rule, fixable or not,
  and every document, applying \<^verbatim>\<open>updateCodeBlocks\<close> twice gives the same document as applying
  it once.
\<close>

theorem C6_updateCodeBlocks_idempotent:
  "updateCodeBlocks (updateCodeBlocks d) = updateCodeBlocks d"
proof -
  have r: "rule (updateCodeBlocks d) = rule d" and p: "filePath (updateCodeBlocks d) = filePath d"
    by (simp_all add: updateCodeBlocks_def)
  have "content (updateCodeBlocks (updateCodeBlocks d)) = content (updateCodeBlocks d)"
    by (simp add: updateCodeBlocks_tags r tags_idem)
  then show ?thesis by (simp add: updateCodeBlocks_def)
qed

text \<open>The tag of the specification's example, for a fixable rule.\<close>

lemma updateCodeBlocks_example:
  "content (updateCodeBlocks \<lparr>rule = r_fixable, filePath = ''docs/rules/x.md'',
                              content = ''<eslint-code-block someattr>''\<rparr>)
   = ''<eslint-code-block fix someattr>''"
  by code_simp

end
